theory Spec2Isabelle
  imports Main "HOL-Library.Word" "HOL-Library.Code_Target_Nat"
begin

unbundle bit_operations_syntax

section \<open>Data model of the PDF interpreter\<close>

text \<open>
  The development embeds the object model of the PDF interpreter (the file whose first
  function is \<open>pdfi_alloc_object\<close>, and \<open>pdf_array.c\<close>): objects live in a heap of
  reference-counted cells, the interpreter stack holds addresses of cells, and every C
  function becomes a function from a context to an error or an updated context.

  Bytes are 8-bit words, so that the arithmetic on \<open>char\<close> buffers wraps as in C.
  A pointer is an address (an index into the heap) and \<open>NULL\<close> is \<open>None\<close>.
\<close>

type_synonym byte = "8 word"
type_synonym addr = nat

datatype gs_error =
    gs_error_ioerror
  | gs_error_rangecheck
  | gs_error_stackunderflow
  | gs_error_stackoverflow
  | gs_error_syntaxerror
  | gs_error_typecheck
  | gs_error_undefined
  | gs_error_VMerror
  | gs_error_unknownerror
  | gs_error_circular_reference
  | gs_error_unmatchedmark
  | invalid_memory_access
  | indeterminate_value

text \<open>
  \<open>invalid_memory_access\<close> and \<open>indeterminate_value\<close> are not error codes of the
  program. The first marks the places where the C code would read through a pointer that
  is not valid (below the base of the stack, a freed or null object), the second the
  places where it goes on with a variable that was never assigned, or with a result that
  the C library leaves undefined, so that such a run is a visible outcome of the model
  and not an unspecified value.
\<close>

datatype pdf_obj_type =
    PDF_NULL | PDF_INT | PDF_REAL | PDF_STRING | PDF_NAME | PDF_ARRAY | PDF_DICT
  | PDF_INDIRECT | PDF_BOOL | PDF_KEYWORD | PDF_XREF_TABLE
  | PDF_ARRAY_MARK | PDF_DICT_MARK | PDF_PROC_MARK
  | PDF_OTHER_TYPE

datatype pdf_key =
    PDF_NOKEY | PDF_OBJ | PDF_ENDOBJ | PDF_STREAM | PDF_ENDSTREAM
  | PDF_XREF | PDF_STARTXREF | PDF_TRAILER | PDF_INVALID_KEY

text \<open>
  The flags of the per-document error mask. Their bit values are declared in a header
  that is not among the sources, so the mask is the set of the flags whose bits are set:
  \<open>mask |= F\<close> is \<open>insert F mask\<close> and \<open>mask & F\<close> is \<open>F \<in> mask\<close>.
\<close>

datatype pdf_error_flag =
    E_PDF_MISSINGWHITESPACE | E_PDF_MALFORMEDNUMBER | E_PDF_UNESCAPEDSTRING
  | E_PDF_BADOBJNUMBER | E_PDF_MISSINGENDOBJ

text \<open>
  One record for all the object structs (\<open>pdf_obj\<close>, \<open>pdf_num\<close>, \<open>pdf_string\<close>,
  \<open>pdf_name\<close>, \<open>pdf_keyword\<close>, \<open>pdf_array\<close>, \<open>pdf_dict\<close>, \<open>pdf_indirect_ref\<close>,
  \<open>pdf_bool\<close>): the C code casts between them over a common prefix, and
  \<open>pdfi_alloc_object\<close> clears the whole struct. The \<open>length\<close> field of a string is the
  length of \<open>o_data\<close>. A real number keeps the decimal text given to \<open>sscanf\<close>; its
  conversion to a float is outside the model.
\<close>

record pdf_obj =
  o_type :: pdf_obj_type
  refcnt :: int
  object_num :: nat
  generation_num :: nat
  num_i :: int
  num_d :: "byte list"
  bool_v :: bool
  o_data :: "byte list"
  o_key :: pdf_key
  o_size :: nat
  entries :: nat
  o_values :: "addr option list"
  o_keys :: "addr option list"
  ref_object_num :: nat
  ref_generation_num :: nat
  stream_offset :: int

record xref_entry =
  x_compressed :: bool
  x_free :: bool
  x_object_num :: nat
  x_generation_num :: nat
  x_offset :: int
  x_compressed_stream_num :: nat
  x_object_index :: nat
  x_cache :: "addr option"

record pdf_obj_cache_entry =
  ce_next :: "addr option"
  ce_previous :: "addr option"
  ce_o :: addr

text \<open>
  A stream is its bytes, the read position, the bytes pushed back by \<open>pdfi_unread\<close>
  (the next byte to read first) and the end-of-file flag.
\<close>

record pdf_stream =
  s_data :: "byte list"
  s_pos :: nat
  unread_buf :: "byte list"
  eof :: bool

datatype stream_sel = MAIN | SUB

text \<open>
  The context. \<open>heap\<close> is the object memory: cell \<open>a\<close> is \<open>Some\<close> object while allocated
  and \<open>None\<close> once freed. \<open>stack\<close> has the top of the stack first, so \<open>stack_top[-1]\<close> is
  its head and \<open>stack_top - stack_bot\<close> its length. \<open>xref_table\<close> is \<open>None\<close> for a null
  table pointer and otherwise the entries, \<open>xref_size\<close> being their number.
  \<open>cache_nodes\<close> is the memory of the cache's list nodes. \<open>sub_stream\<close> is the stream
  that \<open>pdfi_filter\<close> opened last, and \<open>decoded\<close> gives, for a stream offset in the main
  file, the bytes its filter chain yields: the codecs are collaborators whose output is
  tabulated here.
\<close>

record pdf_context =
  pdfstoponerror :: bool
  pdf_errors :: "pdf_error_flag set"
  heap :: "pdf_obj option list"
  stack :: "addr list"
  main_stream :: pdf_stream
  main_stream_length :: int
  sub_stream :: pdf_stream
  decoded :: "(nat \<times> byte list) list"
  xref_table :: "xref_entry list option"
  cache_nodes :: "pdf_obj_cache_entry option list"
  cache_LRU :: "addr option"
  cache_MRU :: "addr option"
  cache_entries :: nat
  loop_detection :: "nat list option"
  Root :: "addr option"
  repaired :: bool

section \<open>Streams\<close>

text \<open>
  Modelled from the spec: \<open>pdfi_read_bytes\<close>, \<open>pdfi_unread\<close>, \<open>pdfi_seek\<close> and
  \<open>pdfi_unread_tell\<close> are declared in a header and defined in a file that is not among
  the sources. The token reader needs a stream that is read one byte at a time, that
  supports the push-back of the bytes it probed, and whose position can be saved and
  restored. A read at the end of the data returns 0 bytes and sets the end-of-file flag.
\<close>

definition get_stream :: "pdf_context \<Rightarrow> stream_sel \<Rightarrow> pdf_stream" where
  "get_stream ctx sel = (case sel of MAIN \<Rightarrow> main_stream ctx | SUB \<Rightarrow> sub_stream ctx)"

definition set_stream :: "pdf_context \<Rightarrow> stream_sel \<Rightarrow> pdf_stream \<Rightarrow> pdf_context" where
  "set_stream ctx sel s =
     (case sel of MAIN \<Rightarrow> ctx\<lparr>main_stream := s\<rparr> | SUB \<Rightarrow> ctx\<lparr>sub_stream := s\<rparr>)"

definition pdfi_read_byte :: "pdf_stream \<Rightarrow> int \<times> byte option \<times> pdf_stream" where
  "pdfi_read_byte s =
     (case unread_buf s of
        c # u \<Rightarrow> (1, Some c, s\<lparr>unread_buf := u\<rparr>)
      | [] \<Rightarrow>
          if s_pos s < length (s_data s)
          then (1, Some (s_data s ! s_pos s), s\<lparr>s_pos := s_pos s + 1\<rparr>)
          else (0, None, s\<lparr>eof := True\<rparr>))"

definition pdfi_unread :: "pdf_stream \<Rightarrow> byte list \<Rightarrow> pdf_stream" where
  "pdfi_unread s bs = s\<lparr>unread_buf := bs @ unread_buf s\<rparr>"

definition pdfi_unread_tell :: "pdf_context \<Rightarrow> int" where
  "pdfi_unread_tell ctx =
     int (s_pos (main_stream ctx)) - int (length (unread_buf (main_stream ctx)))"

definition remaining :: "pdf_stream \<Rightarrow> byte list" where
  "remaining s = unread_buf s @ drop (s_pos s) (s_data s)"

definition read_ctx :: "pdf_context \<Rightarrow> stream_sel \<Rightarrow> int \<times> byte option \<times> pdf_context" where
  "read_ctx ctx sel =
     (case pdfi_read_byte (get_stream ctx sel) of
        (n, c, s') \<Rightarrow> (n, c, set_stream ctx sel s'))"

definition unread_ctx :: "pdf_context \<Rightarrow> stream_sel \<Rightarrow> byte list \<Rightarrow> pdf_context" where
  "unread_ctx ctx sel bs = set_stream ctx sel (pdfi_unread (get_stream ctx sel) bs)"

section \<open>Allocation and reference counts\<close>

text \<open>
  A C function that returns a code and changes the context returns here the code, or the
  value it stores through a pointer argument, together with the context it leaves: the
  context after a failed call matters to the caller, who goes on from it.
\<close>

type_synonym 'a res = "(gs_error + 'a) \<times> pdf_context"

definition zero_obj :: "pdf_obj_type \<Rightarrow> pdf_obj" where
  "zero_obj t =
     \<lparr> o_type = t, refcnt = 0, object_num = 0, generation_num = 0, num_i = 0, num_d = [],
       bool_v = False, o_data = [], o_key = PDF_NOKEY, o_size = 0, entries = 0,
       o_values = [], o_keys = [], ref_object_num = 0, ref_generation_num = 0,
       stream_offset = 0 \<rparr>"

text \<open>
  \<open>pdfi_alloc_object\<close>: the struct is cleared, the type is set, and for a composite the
  slots are allocated and cleared with \<open>memset\<close>, that is, every slot is the null
  pointer. \<open>gs_alloc_bytes\<close> is taken to succeed, so the exits with \<open>gs_error_VMerror\<close> are
  not reached. The new cell is at a fresh address.
\<close>

definition pdfi_alloc_object :: "pdf_context \<Rightarrow> pdf_obj_type \<Rightarrow> nat \<Rightarrow> addr res" where
  "pdfi_alloc_object ctx t sz =
     (if t = PDF_OTHER_TYPE then (Inl gs_error_typecheck, ctx)
      else
        let ob =
          (if t = PDF_KEYWORD \<or> t = PDF_STRING \<or> t = PDF_NAME
             then (zero_obj t)\<lparr>o_data := replicate sz 0\<rparr>
           else if t = PDF_ARRAY
             then (zero_obj t)\<lparr>o_size := sz, o_values := replicate sz None\<rparr>
           else if t = PDF_DICT
             then (zero_obj t)\<lparr>o_size := sz, o_values := replicate sz None,
                                o_keys := replicate sz None\<rparr>
           else zero_obj t)
        in (Inr (length (heap ctx)), ctx\<lparr>heap := heap ctx @ [Some ob]\<rparr>))"

definition obj_at :: "pdf_obj option list \<Rightarrow> addr \<Rightarrow> pdf_obj option" where
  "obj_at h a = (if a < length h then h ! a else None)"

definition upd_obj :: "pdf_obj option list \<Rightarrow> addr \<Rightarrow> (pdf_obj \<Rightarrow> pdf_obj) \<Rightarrow> pdf_obj option list" where
  "upd_obj h a f = (case obj_at h a of None \<Rightarrow> h | Some ob \<Rightarrow> h[a := Some (f ob)])"

text \<open>
  Modelled from the spec: \<open>pdfi_countup\<close> and \<open>pdfi_countdown\<close> are macros of a header
  that is not among the sources, and \<open>pdfi_free_dict\<close> is in a file that is not among
  them. \<open>count_up\<close> adds one to the count; \<open>count_down\<close> subtracts one and, when the count
  reaches 0, frees the object and releases the children it owns. \<open>pdfi_free_object\<close> and
  \<open>pdfi_free_array\<close> are sources: an array releases its non-null slots, and a type that
  \<open>pdfi_free_object\<close> does not know (a procedure mark among them) is left allocated.
\<close>

definition pdfi_countup :: "pdf_obj option list \<Rightarrow> addr \<Rightarrow> pdf_obj option list" where
  "pdfi_countup h a = upd_obj h a (\<lambda>ob. ob\<lparr>refcnt := refcnt ob + 1\<rparr>)"

definition owned :: "pdf_obj \<Rightarrow> addr list" where
  "owned ob =
     (if o_type ob = PDF_ARRAY then List.map_filter id (take (o_size ob) (o_values ob))
      else if o_type ob = PDF_DICT
        then List.map_filter id (take (entries ob) (o_keys ob))
           @ List.map_filter id (take (entries ob) (o_values ob))
      else [])"

definition freeable :: "pdf_obj_type \<Rightarrow> bool" where
  "freeable t = (t \<noteq> PDF_PROC_MARK \<and> t \<noteq> PDF_OTHER_TYPE)"

definition live :: "pdf_obj option list \<Rightarrow> nat" where
  "live h = length (filter (\<lambda>c. c \<noteq> None) h)"

lemma live_free: "a < length h \<Longrightarrow> h ! a = Some ob \<Longrightarrow> live (h[a := None]) < live h"
proof (induction h arbitrary: a)
  case Nil
  then show ?case by simp
next
  case (Cons c h)
  show ?case
  proof (cases a)
    case 0
    with Cons.prems show ?thesis by (simp add: live_def)
  next
    case (Suc k)
    with Cons show ?thesis by (auto simp: live_def)
  qed
qed

function countdown_all :: "addr list \<Rightarrow> pdf_obj option list \<Rightarrow> pdf_obj option list" where
  "countdown_all [] h = h"
| "countdown_all (a # as) h =
     (case obj_at h a of
        None \<Rightarrow> countdown_all as h
      | Some ob \<Rightarrow>
          if refcnt ob - 1 = 0 \<and> freeable (o_type ob)
          then countdown_all (owned ob @ as) (h[a := None])
          else countdown_all as (h[a := Some (ob\<lparr>refcnt := refcnt ob - 1\<rparr>)]))"
  by pat_completeness auto
termination
proof (relation "measures [\<lambda>(as, h). live h, \<lambda>(as, h). length as]")
  show "wf (measures [\<lambda>(as, h). live h, \<lambda>(as, h). length as])" by simp
next
  fix a as h
  show "((as, h), a # as, h) \<in> measures [\<lambda>(as, h). live h, \<lambda>(as, h). length as]" by simp
next
  fix a :: addr and as h and ob :: pdf_obj
  assume "obj_at h a = Some ob"
  then have "a < length h" "h ! a = Some ob"
    by (auto simp: obj_at_def split: if_splits)
  then have "live (h[a := None]) < live h" by (rule live_free)
  then show "((owned ob @ as, h[a := None]), a # as, h)
      \<in> measures [\<lambda>(as, h). live h, \<lambda>(as, h). length as]" by simp
next
  fix a :: addr and as h and ob :: pdf_obj
  assume "obj_at h a = Some ob"
  then have "a < length h" "h ! a = Some ob"
    by (auto simp: obj_at_def split: if_splits)
  then have "live (h[a := Some (ob\<lparr>refcnt := refcnt ob - 1\<rparr>)]) = live h"
  proof (induction h arbitrary: a)
    case Nil
    then show ?case by simp
  next
    case (Cons c h)
    then show ?case by (cases a) (auto simp: live_def)
  qed
  then show "((as, h[a := Some (ob\<lparr>refcnt := refcnt ob - 1\<rparr>)]), a # as, h)
      \<in> measures [\<lambda>(as, h). live h, \<lambda>(as, h). length as]" by simp
qed

definition pdfi_countdown :: "pdf_obj option list \<Rightarrow> addr \<Rightarrow> pdf_obj option list" where
  "pdfi_countdown h a = countdown_all [a] h"

text \<open>
  \<open>pdfi_free_object\<close>, called on an object directly: the object is freed whatever its
  count, and an array or a dictionary releases its children.
\<close>

definition pdfi_free_object :: "pdf_obj option list \<Rightarrow> addr \<Rightarrow> pdf_obj option list" where
  "pdfi_free_object h a =
     (case obj_at h a of
        None \<Rightarrow> h
      | Some ob \<Rightarrow> if freeable (o_type ob) then countdown_all (owned ob) (h[a := None]) else h)"


section \<open>The interpreter stack\<close>

text \<open>
  Modelled from the spec: \<open>pdfi_push\<close> and \<open>pdfi_pop\<close> are in a file that is not among
  the sources. Pushing an object counts it up; popping counts it down. The stack is taken
  to grow on demand, so a push succeeds. \<open>pdfi_pop ctx n\<close> pops as many of \<open>n\<close> objects
  as the stack holds; no caller in the sources reads its return code.
\<close>

definition pdfi_push :: "pdf_context \<Rightarrow> addr \<Rightarrow> pdf_context" where
  "pdfi_push ctx a = ctx\<lparr>stack := a # stack ctx, heap := pdfi_countup (heap ctx) a\<rparr>"

fun pdfi_pop :: "pdf_context \<Rightarrow> nat \<Rightarrow> pdf_context" where
  "pdfi_pop ctx 0 = ctx"
| "pdfi_pop ctx (Suc n) =
     (case stack ctx of
        [] \<Rightarrow> ctx
      | a # st \<Rightarrow> pdfi_pop (ctx\<lparr>stack := st, heap := pdfi_countdown (heap ctx) a\<rparr>) n)"

section \<open>The token reader\<close>

subsection \<open>White space, delimiters and hex digits\<close>

definition iswhite :: "byte \<Rightarrow> bool" where
  "iswhite c = (c = 0x00 \<or> c = 0x09 \<or> c = 0x0a \<or> c = 0x0c \<or> c = 0x0d \<or> c = 0x20)"

text \<open>The delimiters are \<open>/ ( ) [ ] < > { } %\<close>.\<close>

definition isdelimiter :: "byte \<Rightarrow> bool" where
  "isdelimiter c =
     (c = 0x2F \<or> c = 0x28 \<or> c = 0x29 \<or> c = 0x5B \<or> c = 0x5D \<or> c = 0x3C \<or> c = 0x3E
      \<or> c = 0x7B \<or> c = 0x7D \<or> c = 0x25)"

text \<open>
  How an iteration of a loop ends: with the next iteration (also by \<open>continue\<close>), by
  \<open>break\<close>, or by a \<open>return\<close> of an error code. Each carries the state it leaves.
\<close>

datatype 'a loop_ctl = Continue 'a | Break 'a | Return_error gs_error 'a

subsection \<open>Literal strings: \<open>pdfi_read_string\<close>\<close>

text \<open>
  The locals of \<open>pdfi_read_string\<close>. \<open>index\<close> is an \<open>unsigned short\<close>, so its increment
  wraps at \<open>65536\<close>. \<open>Buffer\<close> grows by 256 bytes whenever \<open>index\<close> reaches its last
  byte, so a write at \<open>index\<close> is always inside it: the model keeps the bytes written so
  far and lets a write at the end extend them. In a \<open>do ... while(1)\<close> loop a
  \<open>continue\<close> starts the next iteration without the increment of \<open>index\<close> at the end
  of the body.
\<close>

record string_locals =
  Buffer :: "byte list"
  index :: nat
  octal :: "byte list"
  octal_index :: nat
  nesting :: int
  escape :: bool
  skip_eol_flag :: bool
  exit_loop :: bool

definition buf_put :: "byte list \<Rightarrow> nat \<Rightarrow> byte \<Rightarrow> byte list" where
  "buf_put b i c = (if i < length b then b[i := c] else b @ [c])"

definition put_char :: "string_locals \<Rightarrow> byte \<Rightarrow> string_locals" where
  "put_char st c = st\<lparr>Buffer := buf_put (Buffer st) (index st) c\<rparr>"

definition string_next ::
  "pdf_context \<times> string_locals \<Rightarrow> (pdf_context \<times> string_locals) loop_ctl" where
  "string_next x =
     (case x of (ctx, st) \<Rightarrow>
        if exit_loop st then Break (ctx, st)
        else Continue (ctx, st\<lparr>index := (index st + 1) mod 65536\<rparr>))"

text \<open>The pending octal escape, written when a byte that is not an octal digit ends it.\<close>

definition flush_octal :: "string_locals \<Rightarrow> string_locals" where
  "flush_octal st =
     (put_char st (if octal_index st = 2 then (octal st ! 0) * 8 + (octal st ! 1)
                   else octal st ! 0))\<lparr>octal_index := 0\<rparr>"

definition is_octal_digit :: "byte \<Rightarrow> bool" where
  "is_octal_digit c = (0x30 \<le> c \<and> c \<le> 0x37)"

definition string_escaped ::
  "stream_sel \<Rightarrow> pdf_context \<Rightarrow> string_locals \<Rightarrow> byte
     \<Rightarrow> (pdf_context \<times> string_locals) loop_ctl" where
  "string_escaped sel ctx st c =
     (if c = 0x0a \<or> c = 0x0d then Continue (ctx, st\<lparr>skip_eol_flag := True\<rparr>)
      else if octal_index st \<noteq> 0
        then string_next (unread_ctx ctx sel [0x5C, c], flush_octal st)
      else if c = 0x6E then string_next (ctx, put_char st 0x0a)
      else if c = 0x72 then string_next (ctx, put_char st 0x0a)
      else if c = 0x74 then string_next (ctx, put_char st 0x09)
      else if c = 0x62 then string_next (ctx, put_char st 0x07)
      else if c = 0x66 then string_next (ctx, put_char st 0x0c)
      else if c = 0x28 \<or> c = 0x29 \<or> c = 0x5C then string_next (ctx, st)
      else if is_octal_digit c
        then Continue (ctx, st\<lparr>octal := (octal st)[octal_index st := c - 0x30],
                                 octal_index := octal_index st + 1\<rparr>)
      else Return_error gs_error_syntaxerror (ctx, st))"

definition string_plain ::
  "stream_sel \<Rightarrow> pdf_context \<Rightarrow> string_locals \<Rightarrow> byte
     \<Rightarrow> (pdf_context \<times> string_locals) loop_ctl" where
  "string_plain sel ctx st c =
     (if c = 0x0a \<or> c = 0x0d then
        (if octal_index st \<noteq> 0 then string_next (unread_ctx ctx sel [c], flush_octal st)
         else string_next (ctx, (put_char st 0x0a)\<lparr>skip_eol_flag := True\<rparr>))
      else if c = 0x29 then
        (if octal_index st \<noteq> 0 then string_next (unread_ctx ctx sel [c], flush_octal st)
         else if nesting st = 0 then string_next (ctx, (put_char st 0x00)\<lparr>exit_loop := True\<rparr>)
         else string_next (ctx, st\<lparr>nesting := nesting st - 1\<rparr>))
      else if c = 0x5C then Continue (ctx, st\<lparr>escape := True\<rparr>)
      else if c = 0x28 then
        string_next (ctx\<lparr>pdf_errors := insert E_PDF_UNESCAPEDSTRING (pdf_errors ctx)\<rparr>,
                     st\<lparr>nesting := nesting st + 1\<rparr>)
      else if octal_index st \<noteq> 0 then
        (if is_octal_digit c then
           (let st1 = st\<lparr>octal := (octal st)[octal_index st := c - 0x30],
                          octal_index := octal_index st + 1\<rparr>
            in if octal_index st1 < 3 then Continue (ctx, st1)
               else string_next (ctx,
                      (put_char st1 ((octal st1 ! 0) * 64 + (octal st1 ! 1) * 8 + (octal st1 ! 2)))
                        \<lparr>octal_index := 0\<rparr>))
         else string_next (unread_ctx ctx sel [c], flush_octal st))
      else string_next (ctx, st))"

definition string_char ::
  "stream_sel \<Rightarrow> pdf_context \<Rightarrow> string_locals \<Rightarrow> byte
     \<Rightarrow> (pdf_context \<times> string_locals) loop_ctl" where
  "string_char sel ctx st c =
     (if skip_eol_flag st \<and> (c = 0x0a \<or> c = 0x0d) then Continue (ctx, st)
      else if escape st then string_escaped sel ctx (st\<lparr>skip_eol_flag := False, escape := False\<rparr>) c
      else string_plain sel ctx (st\<lparr>skip_eol_flag := False\<rparr>) c)"

definition read_string_iter ::
  "stream_sel \<Rightarrow> pdf_context \<times> string_locals \<Rightarrow> (pdf_context \<times> string_locals) loop_ctl" where
  "read_string_iter sel x =
     (case x of (ctx, st) \<Rightarrow>
        (case read_ctx ctx sel of
           (bytes, None, ctx1) \<Rightarrow>
             if bytes = 0 \<and> eof (get_stream ctx1 sel) then Break (ctx1, st)
             else Break (ctx1, put_char st 0x00)
         | (bytes, Some c, ctx1) \<Rightarrow> string_char sel ctx1 (put_char st c) c))"

definition string_measure :: "stream_sel \<Rightarrow> pdf_context \<times> string_locals \<Rightarrow> nat" where
  "string_measure sel x =
     (case x of (ctx, st) \<Rightarrow>
        4 * length (remaining (get_stream ctx sel))
        + (if octal_index st \<noteq> 0 then 2 else 0) + (if escape st then 3 else 0))"


text \<open>
  The loop of \<open>pdfi_read_string\<close> ends: every iteration reads a byte, and the bytes it
  pushes back (one, or two after a backslash) come with the end of a pending octal escape.
\<close>


lemma get_set_stream [simp]: "get_stream (set_stream ctx sel s) sel = s"
  by (cases sel) (simp_all add: get_stream_def set_stream_def)

lemma get_stream_errors [simp]: "get_stream (ctx\<lparr>pdf_errors := e\<rparr>) sel = get_stream ctx sel"
  by (cases sel) (simp_all add: get_stream_def)

lemma remaining_read:
  "pdfi_read_byte s = (n, Some c, s') \<Longrightarrow> remaining s = c # remaining s'"
  by (auto simp: pdfi_read_byte_def remaining_def Cons_nth_drop_Suc split: list.splits if_splits)

lemma read_ctx_Some:
  "read_ctx ctx sel = (n, Some c, ctx1) \<Longrightarrow>
     remaining (get_stream ctx sel) = c # remaining (get_stream ctx1 sel)"
  by (auto simp: read_ctx_def split: prod.splits dest: remaining_read)

lemma remaining_unread [simp]:
  "remaining (get_stream (unread_ctx ctx sel bs) sel) = bs @ remaining (get_stream ctx sel)"
  by (simp add: unread_ctx_def pdfi_unread_def remaining_def)

lemma string_next_Continue:
  "string_next (ctx, st) = Continue (ctx', st') \<Longrightarrow>
     ctx' = ctx \<and> octal_index st' = octal_index st \<and> escape st' = escape st"
  by (auto simp: string_next_def split: if_splits)

lemma string_escaped_measure:
  "string_escaped sel ctx st c = Continue y \<Longrightarrow> \<not> escape st \<Longrightarrow>
     string_measure sel y
       < 4 * length (remaining (get_stream ctx sel)) + 7 + (if octal_index st \<noteq> 0 then 2 else 0)"
  by (cases y) (auto simp: string_escaped_def string_measure_def flush_octal_def put_char_def
      split: if_splits dest!: string_next_Continue)

lemma string_plain_measure:
  "string_plain sel ctx st c = Continue y \<Longrightarrow> \<not> escape st \<Longrightarrow>
     string_measure sel y
       < 4 * length (remaining (get_stream ctx sel)) + 4 + (if octal_index st \<noteq> 0 then 2 else 0)"
  by (cases y) (auto simp: string_plain_def string_measure_def flush_octal_def put_char_def Let_def
      split: if_splits dest!: string_next_Continue)

lemma read_string_iter_measure:
  "read_string_iter sel x = Continue y \<Longrightarrow> string_measure sel y < string_measure sel x"
proof (cases x)
  case (Pair ctx st)
  assume c: "read_string_iter sel x = Continue y"
  obtain n co ctx1 where r: "read_ctx ctx sel = (n, co, ctx1)" by (cases "read_ctx ctx sel") auto
  show ?thesis
  proof (cases co)
    case None
    with c r Pair show ?thesis by (simp add: read_string_iter_def split: if_splits)
  next
    case (Some b)
    with r have rem: "remaining (get_stream ctx sel) = b # remaining (get_stream ctx1 sel)"
      by (simp add: read_ctx_Some)
    from c r Pair Some have sc: "string_char sel ctx1 (put_char st b) b = Continue y"
      by (simp add: read_string_iter_def)
    show ?thesis
    proof (cases "skip_eol_flag st \<and> (b = 0x0a \<or> b = 0x0d)")
      case True
      with sc have "y = (ctx1, put_char st b)" by (auto simp: string_char_def put_char_def)
      with Pair rem show ?thesis by (simp add: string_measure_def put_char_def)
    next
      case False
      show ?thesis
      proof (cases "escape st")
        case True
        with False sc have "string_escaped sel ctx1 ((put_char st b)\<lparr>skip_eol_flag := False, escape := False\<rparr>) b = Continue y"
          by (auto simp: string_char_def put_char_def)
        then have "string_measure sel y < 4 * length (remaining (get_stream ctx1 sel)) + 7
            + (if octal_index ((put_char st b)\<lparr>skip_eol_flag := False, escape := False\<rparr>) \<noteq> 0 then 2 else 0)"
          by (rule string_escaped_measure) simp
        with Pair rem True show ?thesis by (simp add: string_measure_def put_char_def)
      next
        case esc: False
        with False sc have "string_plain sel ctx1 ((put_char st b)\<lparr>skip_eol_flag := False\<rparr>) b = Continue y"
          by (auto simp: string_char_def put_char_def)
        then have "string_measure sel y < 4 * length (remaining (get_stream ctx1 sel)) + 4
            + (if octal_index ((put_char st b)\<lparr>skip_eol_flag := False\<rparr>) \<noteq> 0 then 2 else 0)"
          by (rule string_plain_measure) (simp add: put_char_def esc)
        with Pair rem esc show ?thesis by (simp add: string_measure_def put_char_def)
      qed
    qed
  qed
qed

function read_string_loop ::
  "stream_sel \<Rightarrow> pdf_context \<times> string_locals
     \<Rightarrow> gs_error option \<times> pdf_context \<times> string_locals" where
  "read_string_loop sel x =
     (case read_string_iter sel x of
        Continue y \<Rightarrow> read_string_loop sel y
      | Break y \<Rightarrow> (None, y)
      | Return_error e y \<Rightarrow> (Some e, y))"
  by pat_completeness auto
termination
  by (relation "measure (\<lambda>(sel, x). string_measure sel x)") (auto dest: read_string_iter_measure)


declare read_string_loop.simps [simp del]

definition init_string_locals :: string_locals where
  "init_string_locals =
     \<lparr> Buffer = [], index = 0, octal = [0, 0, 0], octal_index = 0, nesting = 0,
       escape = False, skip_eol_flag = False, exit_loop = False \<rparr>"

text \<open>
  The end of \<open>pdfi_read_string\<close>, \<open>pdfi_read_name\<close> and \<open>pdfi_read_hexstring\<close>: an
  object of the given type is allocated for \<open>index\<close> bytes, the bytes are copied from the
  buffer, and the object is pushed.
\<close>

definition string_build :: "pdf_context \<Rightarrow> pdf_obj_type \<Rightarrow> string_locals \<Rightarrow> unit res" where
  "string_build ctx1 t st =
     (case pdfi_alloc_object ctx1 t (index st) of
        (Inl e, ctx2) \<Rightarrow> (Inl e, ctx2)
      | (Inr a, ctx2) \<Rightarrow>
          (Inr (), pdfi_push
            (ctx2\<lparr>heap := upd_obj (heap ctx2) a
               (\<lambda>ob. ob\<lparr>o_data := take (index st) (Buffer st)\<rparr>)\<rparr>) a))"

definition pdfi_read_string :: "pdf_context \<Rightarrow> stream_sel \<Rightarrow> unit res" where
  "pdfi_read_string ctx sel =
     (case read_string_loop sel (ctx, init_string_locals) of
        (Some e, ctx1, st) \<Rightarrow> (Inl e, ctx1)
      | (None, ctx1, st) \<Rightarrow> string_build ctx1 PDF_STRING st)"


subsection \<open>White space and numbers: \<open>skip_white\<close>, \<open>pdfi_read_num\<close>\<close>

text \<open>
  \<open>skip_white\<close> reads bytes while they are white space and pushes the first other byte
  back. Its counter \<open>read\<close> is a \<open>uint32_t\<close>. At the end of the data it returns without
  a push-back.
\<close>

function skip_white_loop :: "stream_sel \<Rightarrow> pdf_context \<Rightarrow> nat \<Rightarrow> unit res" where
  "skip_white_loop sel ctx rd =
     (case read_ctx ctx sel of
        (bytes, None, ctx1) \<Rightarrow>
          if bytes < 0 then (Inl gs_error_ioerror, ctx1) else (Inr (), ctx1)
      | (bytes, Some c, ctx1) \<Rightarrow>
          if iswhite c then skip_white_loop sel ctx1 ((rd + 1) mod 2 ^ 32)
          else (Inr (), if 0 < (rd + 1) mod (2 ^ 32 :: nat) then unread_ctx ctx1 sel [c] else ctx1))"
  by pat_completeness auto
termination
  by (relation "measure (\<lambda>(sel, ctx, rd). length (remaining (get_stream ctx sel)))")
     (auto dest: read_ctx_Some [OF sym])

declare skip_white_loop.simps [simp del]

definition skip_white :: "pdf_context \<Rightarrow> stream_sel \<Rightarrow> unit res" where
  "skip_white ctx sel = skip_white_loop sel ctx 0"

text \<open>
  The locals of \<open>pdfi_read_num\<close>. \<open>num_Buffer\<close> is the array \<open>Buffer[256]\<close>; the string
  that \<open>sscanf\<close> reads is its first \<open>num_index\<close> bytes, since every exit of the loop
  writes the terminating zero at \<open>num_index\<close> and no byte before it is zero (a zero byte
  is white space and ends the loop).
\<close>

record num_locals =
  num_Buffer :: "byte list"
  num_index :: nat
  real :: bool
  malformed :: bool

definition num_put :: "num_locals \<Rightarrow> byte \<Rightarrow> num_locals" where
  "num_put st c = st\<lparr>num_Buffer := buf_put (num_Buffer st) (num_index st) c\<rparr>"

text \<open>The end of the loop body: \<open>if (++index > 255) return_error(gs_error_syntaxerror)\<close>.\<close>

definition num_next ::
  "pdf_context \<times> num_locals \<Rightarrow> (pdf_context \<times> num_locals) loop_ctl" where
  "num_next x =
     (case x of (ctx, st) \<Rightarrow>
        if num_index st + 1 > 255
        then Return_error gs_error_syntaxerror (ctx, st\<lparr>num_index := num_index st + 1\<rparr>)
        else Continue (ctx, st\<lparr>num_index := num_index st + 1\<rparr>))"

definition num_char ::
  "stream_sel \<Rightarrow> pdf_context \<Rightarrow> num_locals \<Rightarrow> byte
     \<Rightarrow> (pdf_context \<times> num_locals) loop_ctl" where
  "num_char sel ctx st c =
     (if iswhite c then Break (ctx, num_put st 0x00)
      else if isdelimiter c then Break (unread_ctx ctx sel [c], num_put st 0x00)
      else if c = 0x2E then
        (if real st then
           (if pdfstoponerror ctx then Return_error gs_error_syntaxerror (ctx, st)
            else num_next (ctx, st\<lparr>malformed := True\<rparr>))
         else num_next (ctx, st\<lparr>real := True\<rparr>))
      else if c = 0x2D \<or> c = 0x2B then
        (if num_index st \<noteq> 0 then
           (if pdfstoponerror ctx then Return_error gs_error_syntaxerror (ctx, st)
            else num_next (ctx, st\<lparr>malformed := True\<rparr>))
         else num_next (ctx, st))
      else if c < 0x30 \<or> c > 0x39 then
        (if pdfstoponerror ctx then Return_error gs_error_syntaxerror (ctx, st)
         else Break (unread_ctx
                (ctx\<lparr>pdf_errors := insert E_PDF_MISSINGWHITESPACE (pdf_errors ctx)\<rparr>) sel [c],
                num_put st 0x00))
      else num_next (ctx, st))"

definition read_num_iter ::
  "stream_sel \<Rightarrow> pdf_context \<times> num_locals \<Rightarrow> (pdf_context \<times> num_locals) loop_ctl" where
  "read_num_iter sel x =
     (case x of (ctx, st) \<Rightarrow>
        (case read_ctx ctx sel of
           (bytes, None, ctx1) \<Rightarrow>
             if bytes = 0 \<and> eof (get_stream ctx1 sel) then Break (ctx1, num_put st 0x00)
             else Return_error gs_error_ioerror (ctx1, st)
         | (bytes, Some c, ctx1) \<Rightarrow> num_char sel ctx1 (num_put st c) c))"

lemma read_num_iter_measure:
  assumes "read_num_iter sel x = Continue y"
  shows "length (remaining (get_stream (fst y) sel)) < length (remaining (get_stream (fst x) sel))"
proof (cases x)
  case (Pair ctx st)
  obtain n co ctx1 where r: "read_ctx ctx sel = (n, co, ctx1)" by (cases "read_ctx ctx sel") auto
  show ?thesis
  proof (cases co)
    case None
    with assms r Pair show ?thesis by (simp add: read_num_iter_def split: if_splits)
  next
    case (Some b)
    with r have "remaining (get_stream ctx sel) = b # remaining (get_stream ctx1 sel)"
      by (simp add: read_ctx_Some)
    moreover from assms r Pair Some have "fst y = ctx1"
      by (auto simp: read_num_iter_def num_char_def num_next_def split: if_splits)
    ultimately show ?thesis using Pair by simp
  qed
qed

function read_num_loop ::
  "stream_sel \<Rightarrow> pdf_context \<times> num_locals \<Rightarrow> gs_error option \<times> pdf_context \<times> num_locals" where
  "read_num_loop sel x =
     (case read_num_iter sel x of
        Continue y \<Rightarrow> read_num_loop sel y
      | Break y \<Rightarrow> (None, y)
      | Return_error e y \<Rightarrow> (Some e, y))"
  by pat_completeness auto
termination
  by (relation "measure (\<lambda>(sel, x). length (remaining (get_stream (fst x) sel)))")
     (auto dest: read_num_iter_measure)

declare read_num_loop.simps [simp del]

text \<open>
  Modelled from the C standard: \<open>sscanf\<close> returns the number of items it assigned, 0
  when the text does not match the conversion, and \<open>EOF\<close> when the text ends before
  anything was converted. With \<open>%d\<close> it reads an optional sign and the decimal digits
  that follow into an \<open>int\<close>; the standard leaves the result undefined when the value
  does not fit. With \<open>%f\<close> it needs a digit as well; the text of the number is kept, its
  conversion to a float being outside the model.
\<close>

datatype 'a scanned = Scanned 'a | Matching_failure | Input_failure | Not_representable

definition is_digit :: "byte \<Rightarrow> bool" where
  "is_digit c = (0x30 \<le> c \<and> c \<le> 0x39)"

definition digits_value :: "byte list \<Rightarrow> int" where
  "digits_value ds = foldl (\<lambda>v c. v * 10 + (uint c - 48)) 0 ds"

definition sscanf_d :: "byte list \<Rightarrow> int scanned" where
  "sscanf_d b =
     (if b = [] then Input_failure
      else
        let neg = (hd b = 0x2D);
            body = (if hd b = 0x2D \<or> hd b = 0x2B then tl b else b);
            ds = takeWhile is_digit body;
            v = (if neg then - 1 else 1) * digits_value ds
        in if ds = [] then Matching_failure
           else if - (2 ^ 31) \<le> v \<and> v < 2 ^ 31 then Scanned v
           else Not_representable)"

definition sscanf_f :: "byte list \<Rightarrow> (byte list) scanned" where
  "sscanf_f b =
     (if b = [] then Input_failure
      else if \<exists>c \<in> set b. is_digit c then Scanned b
      else Matching_failure)"

definition init_num_locals :: num_locals where
  "init_num_locals = \<lparr> num_Buffer = [], num_index = 0, real = False, malformed = False \<rparr>"

text \<open>
  \<open>pdfi_read_num\<close>. The code of \<open>skip_white\<close> is not read. A number that the loop
  found malformed becomes an integer object with the value 0 and sets the flag
  \<open>E_PDF_MALFORMEDNUMBER\<close>; otherwise the text is converted, and a number for which
  \<open>sscanf\<close> returns 0 is freed and reported as a syntax error. The test is \<open>== 0\<close>: on
  an empty text \<open>sscanf\<close> returns \<open>EOF\<close>, and the code goes on with the variable that
  was never assigned.
\<close>

definition num_build :: "pdf_context \<Rightarrow> num_locals \<Rightarrow> unit res" where
  "num_build ctx1 st =
     (case pdfi_alloc_object ctx1 (if real st \<and> \<not> malformed st then PDF_REAL else PDF_INT) 0 of
        (Inl e, ctx2) \<Rightarrow> (Inl e, ctx2)
      | (Inr num, ctx2) \<Rightarrow>
          let text = take (num_index st) (num_Buffer st) in
          if malformed st then
            (Inr (), pdfi_push
               (ctx2\<lparr>pdf_errors := insert E_PDF_MALFORMEDNUMBER (pdf_errors ctx2),
                     heap := upd_obj (heap ctx2) num (\<lambda>ob. ob\<lparr>num_i := 0\<rparr>)\<rparr>) num)
          else if real st then
            (case sscanf_f text of
               Matching_failure \<Rightarrow>
                 (Inl gs_error_syntaxerror, ctx2\<lparr>heap := (heap ctx2)[num := None]\<rparr>)
             | Scanned d \<Rightarrow>
                 (Inr (), pdfi_push
                    (ctx2\<lparr>heap := upd_obj (heap ctx2) num (\<lambda>ob. ob\<lparr>num_d := d\<rparr>)\<rparr>) num)
             | Input_failure \<Rightarrow> (Inl indeterminate_value, ctx2)
             | Not_representable \<Rightarrow> (Inl indeterminate_value, ctx2))
          else
            (case sscanf_d text of
               Matching_failure \<Rightarrow>
                 (Inl gs_error_syntaxerror, ctx2\<lparr>heap := (heap ctx2)[num := None]\<rparr>)
             | Scanned i \<Rightarrow>
                 (Inr (), pdfi_push
                    (ctx2\<lparr>heap := upd_obj (heap ctx2) num (\<lambda>ob. ob\<lparr>num_i := i\<rparr>)\<rparr>) num)
             | Input_failure \<Rightarrow> (Inl indeterminate_value, ctx2)
             | Not_representable \<Rightarrow> (Inl indeterminate_value, ctx2)))"

definition pdfi_read_num :: "pdf_context \<Rightarrow> stream_sel \<Rightarrow> unit res" where
  "pdfi_read_num ctx sel =
     (case read_num_loop sel (snd (skip_white ctx sel), init_num_locals) of
        (Some e, ctx1, st) \<Rightarrow> (Inl e, ctx1)
      | (None, ctx1, st) \<Rightarrow> num_build ctx1 st)"

subsection \<open>Escape sequences in literal strings\<close>

text \<open>
  The table of the escapes as the claim states it: \<open>n\<close> and \<open>r\<close> both give the byte
  \<open>0x0A\<close>, \<open>t\<close> gives \<open>0x09\<close>, \<open>b\<close> gives \<open>0x07\<close>, \<open>f\<close> gives \<open>0x0C\<close>, and an
  end-of-line after the backslash gives no byte. A plain byte is one that the reader
  copies as it is: not an end-of-line, a parenthesis or a backslash.
\<close>


definition plain_byte :: "byte \<Rightarrow> bool" where
  "plain_byte c = (c \<noteq> 0x0a \<and> c \<noteq> 0x0d \<and> c \<noteq> 0x28 \<and> c \<noteq> 0x29 \<and> c \<noteq> 0x5C)"

definition escape_bytes :: "byte \<Rightarrow> byte list option" where
  "escape_bytes e =
     (if e = 0x6E then Some [0x0A]
      else if e = 0x72 then Some [0x0A]
      else if e = 0x74 then Some [0x09]
      else if e = 0x62 then Some [0x07]
      else if e = 0x66 then Some [0x0C]
      else if e = 0x0A \<or> e = 0x0D then Some []
      else None)"

definition top_data :: "pdf_context \<Rightarrow> byte list option" where
  "top_data ctx =
     (case stack ctx of [] \<Rightarrow> None | a # _ \<Rightarrow>
        (case obj_at (heap ctx) a of None \<Rightarrow> None
         | Some ob \<Rightarrow> if o_type ob = PDF_STRING then Some (o_data ob) else None))"

definition neutral :: "string_locals \<Rightarrow> bool" where
  "neutral st = (\<not> escape st \<and> octal_index st = 0 \<and> \<not> exit_loop st \<and> nesting st = 0
                 \<and> index st \<le> length (Buffer st))"

definition content :: "string_locals \<Rightarrow> byte list" where
  "content st = take (index st) (Buffer st)"

lemma take_buf_put: "i \<le> length b \<Longrightarrow> take (Suc i) (buf_put b i c) = take i b @ [c]"
  by (auto simp: buf_put_def take_Suc_conv_app_nth)

lemma length_buf_put: "i \<le> length b \<Longrightarrow> i < length (buf_put b i c)"
  by (auto simp: buf_put_def)

lemma buf_put_twice [simp]: "i \<le> length b \<Longrightarrow> buf_put (buf_put b i x) i c = buf_put b i c"
  by (auto simp: buf_put_def)

lemma length_buf_put_le [simp]: "i \<le> length b \<Longrightarrow> i \<le> length (buf_put b i c)"
  by (auto simp: buf_put_def)

lemma take_buf_put_same: "i \<le> length b \<Longrightarrow> take i (buf_put b i c) = take i b"
  by (auto simp: buf_put_def)


lemma loop_Continue:
  "read_string_iter sel x = Continue y \<Longrightarrow> read_string_loop sel x = read_string_loop sel y"
  by (subst read_string_loop.simps) simp

lemma loop_Break:
  "read_string_iter sel x = Break y \<Longrightarrow> read_string_loop sel x = (None, y)"
  by (subst read_string_loop.simps) simp

lemma read_ctx_next:
  assumes "remaining (get_stream ctx sel) = c # r"
  shows "\<exists>ctx1. read_ctx ctx sel = (1, Some c, ctx1) \<and> remaining (get_stream ctx1 sel) = r"
proof (cases "unread_buf (get_stream ctx sel)")
  case Nil
  with assms have d: "drop (s_pos (get_stream ctx sel)) (s_data (get_stream ctx sel)) = c # r"
    by (simp add: remaining_def)
  then have lt: "s_pos (get_stream ctx sel) < length (s_data (get_stream ctx sel))"
    by (metis drop_all linorder_not_less list.distinct(1))
  from d lt have "s_data (get_stream ctx sel) ! s_pos (get_stream ctx sel) = c"
    and "drop (Suc (s_pos (get_stream ctx sel))) (s_data (get_stream ctx sel)) = r"
    by (simp_all add: Cons_nth_drop_Suc [symmetric])
  with Nil lt show ?thesis
    by (simp add: read_ctx_def pdfi_read_byte_def remaining_def)
next
  case (Cons b u)
  with assms show ?thesis
    by (simp add: read_ctx_def pdfi_read_byte_def remaining_def)
qed


lemma plain_step:
  assumes "plain_byte c" "neutral st" "index st < 65535"
    and "remaining (get_stream ctx sel) = c # r"
  shows "\<exists>ctx1 st1. read_string_iter sel (ctx, st) = Continue (ctx1, st1)
           \<and> neutral st1 \<and> content st1 = content st @ [c] \<and> index st1 = index st + 1
           \<and> remaining (get_stream ctx1 sel) = r"
proof -
  from read_ctx_next [OF assms(4)] obtain ctx1 where
    r: "read_ctx ctx sel = (1, Some c, ctx1)" and rem: "remaining (get_stream ctx1 sel) = r"
    by blast
  from assms(1-3) r rem show ?thesis
    by (simp add: read_string_iter_def string_char_def string_plain_def string_next_def
        put_char_def neutral_def plain_byte_def content_def take_buf_put length_buf_put
        Suc_leI)
qed

lemma close_step:
  assumes "neutral st" and "remaining (get_stream ctx sel) = 0x29 # r"
  shows "\<exists>ctx1 st1. read_string_iter sel (ctx, st) = Break (ctx1, st1)
           \<and> content st1 = content st
           \<and> remaining (get_stream ctx1 sel) = r"
proof -
  from read_ctx_next [OF assms(2)] obtain ctx1 where
    r: "read_ctx ctx sel = (1, Some 0x29, ctx1)" and rem: "remaining (get_stream ctx1 sel) = r"
    by blast
  from assms(1) r rem show ?thesis
    by (simp add: read_string_iter_def string_char_def string_plain_def string_next_def
        put_char_def neutral_def content_def take_buf_put_same)
qed

lemma plain_run_close:
  "list_all plain_byte post \<Longrightarrow> neutral st \<Longrightarrow> index st + length post < 65536 \<Longrightarrow>
   remaining (get_stream ctx sel) = post @ 0x29 # rest \<Longrightarrow>
   \<exists>ctx' st'. read_string_loop sel (ctx, st) = (None, ctx', st')
      \<and> content st' = content st @ post
      \<and> remaining (get_stream ctx' sel) = rest"
proof (induction post arbitrary: ctx st)
  case Nil
  from close_step [OF Nil(2), of ctx sel rest] Nil(4) obtain ctx1 st1 where
    "read_string_iter sel (ctx, st) = Break (ctx1, st1)"
    "content st1 = content st" "remaining (get_stream ctx1 sel) = rest"
    by auto
  then show ?case by (auto simp: loop_Break)
next
  case (Cons c post)
  have "plain_byte c" "index st < 65535" using Cons.prems by auto
  from plain_step [OF this(1) Cons.prems(2) this(2), of ctx sel "post @ 0x29 # rest"] Cons.prems(4)
  obtain ctx1 st1 where s: "read_string_iter sel (ctx, st) = Continue (ctx1, st1)"
    "neutral st1" "content st1 = content st @ [c]" "index st1 = index st + 1"
    "remaining (get_stream ctx1 sel) = post @ 0x29 # rest"
    by auto
  have "\<exists>ctx' st'. read_string_loop sel (ctx1, st1) = (None, ctx', st')
      \<and> content st' = content st1 @ post
      \<and> remaining (get_stream ctx' sel) = rest"
    using Cons.prems s by (intro Cons.IH) auto
  with s show ?case by (auto simp: loop_Continue)
qed

lemma escape_steps:
  assumes "escape_bytes e = Some vs" "neutral st" "index st < 65535"
    and "remaining (get_stream ctx sel) = 0x5C # e # r"
  shows "\<exists>ctx2 st2. read_string_loop sel (ctx, st) = read_string_loop sel (ctx2, st2)
           \<and> neutral st2 \<and> index st2 = index st + length vs
           \<and> content st2 = content st @ vs
           \<and> remaining (get_stream ctx2 sel) = r"
proof -
  from read_ctx_next [OF assms(4)] obtain ctx1 where
    r1: "read_ctx ctx sel = (1, Some 0x5C, ctx1)" and rem1: "remaining (get_stream ctx1 sel) = e # r"
    by blast
  from read_ctx_next [OF rem1] obtain ctx2 where
    r2: "read_ctx ctx1 sel = (1, Some e, ctx2)" and rem2: "remaining (get_stream ctx2 sel) = r"
    by blast
  let ?st1 = "(put_char st 0x5C)\<lparr>skip_eol_flag := False, escape := True\<rparr>"
  have i1: "read_string_iter sel (ctx, st) = Continue (ctx1, ?st1)"
    using assms(2) r1
    by (simp add: read_string_iter_def string_char_def string_plain_def neutral_def put_char_def)
  have le: "index st \<le> length (buf_put (Buffer st) (index st) 0x5C)"
    using assms(2) length_buf_put [of "index st" "Buffer st" "0x5C"] by (simp add: neutral_def)
  from assms(1) have e: "e = 0x6E \<or> e = 0x72 \<or> e = 0x74 \<or> e = 0x62 \<or> e = 0x66 \<or> e = 0x0A \<or> e = 0x0D"
    by (auto simp: escape_bytes_def split: if_splits)
  have "\<exists>st2. read_string_iter sel (ctx1, ?st1) = Continue (ctx2, st2)
           \<and> neutral st2 \<and> index st2 = index st + length vs \<and> content st2 = content st @ vs"
    using e assms(1-3) r2 le
    by (auto simp: read_string_iter_def string_char_def string_escaped_def string_next_def
        neutral_def put_char_def escape_bytes_def content_def take_buf_put length_buf_put
        take_buf_put_same Suc_leI)
  then obtain st2 where "read_string_iter sel (ctx1, ?st1) = Continue (ctx2, st2)"
    "neutral st2" "index st2 = index st + length vs" "content st2 = content st @ vs"
    by blast
  with i1 rem2 show ?thesis
    by (intro exI [of _ ctx2] exI [of _ st2]) (simp add: loop_Continue)
qed

lemma plain_run:
  "list_all plain_byte pre \<Longrightarrow> neutral st \<Longrightarrow> index st + length pre < 65536 \<Longrightarrow>
   remaining (get_stream ctx sel) = pre @ rest \<Longrightarrow>
   \<exists>ctx' st'. read_string_loop sel (ctx, st) = read_string_loop sel (ctx', st')
      \<and> neutral st' \<and> index st' = index st + length pre \<and> content st' = content st @ pre
      \<and> remaining (get_stream ctx' sel) = rest"
proof (induction pre arbitrary: ctx st)
  case Nil
  then show ?case by auto
next
  case (Cons c pre)
  have "plain_byte c" "index st < 65535" using Cons.prems by auto
  from plain_step [OF this(1) Cons.prems(2) this(2), of ctx sel "pre @ rest"] Cons.prems(4)
  obtain ctx1 st1 where s: "read_string_iter sel (ctx, st) = Continue (ctx1, st1)"
    "neutral st1" "content st1 = content st @ [c]" "index st1 = index st + 1"
    "remaining (get_stream ctx1 sel) = pre @ rest"
    by auto
  have "\<exists>ctx' st'. read_string_loop sel (ctx1, st1) = read_string_loop sel (ctx', st')
      \<and> neutral st' \<and> index st' = index st1 + length pre \<and> content st' = content st1 @ pre
      \<and> remaining (get_stream ctx' sel) = rest"
    using Cons.prems s by (intro Cons.IH) auto
  with s show ?case by (auto simp: loop_Continue)
qed

lemma top_data_new_string:
  "pdfi_alloc_object ctx PDF_STRING n = (Inr a, ctx2) \<Longrightarrow>
   top_data (pdfi_push (ctx2\<lparr>heap := upd_obj (heap ctx2) a (\<lambda>ob. ob\<lparr>o_data := d\<rparr>)\<rparr>) a) = Some d"
  by (auto simp: pdfi_alloc_object_def top_data_def pdfi_push_def upd_obj_def obj_at_def
      pdfi_countup_def zero_obj_def Let_def nth_append)

lemma get_stream_after_build:
  "pdfi_alloc_object ctx PDF_STRING n = (Inr a, ctx2) \<Longrightarrow>
   get_stream (pdfi_push (ctx2\<lparr>heap := h\<rparr>) a) sel = get_stream ctx sel"
  by (cases sel) (auto simp: pdfi_alloc_object_def pdfi_push_def get_stream_def Let_def)


text \<open>
  End to end, for a body of plain bytes around one escape: reading the plain bytes
  \<open>pre\<close>, a backslash, an escape character \<open>e\<close>, plain bytes \<open>post\<close> and the closing
  parenthesis returns a string object on top of the stack whose bytes are \<open>pre\<close>, the
  bytes of the table for \<open>e\<close>, and \<open>post\<close>, as long as the index, an \<open>unsigned short\<close>,
  does not wrap. The stream is left after the closing parenthesis.
\<close>

lemma read_string_one_escape:
  assumes "list_all plain_byte pre" "list_all plain_byte post"
    and "length pre + length post < 65534"
    and "escape_bytes e = Some vs"
    and "remaining (get_stream ctx sel) = pre @ [0x5C, e] @ post @ [0x29] @ rest"
  shows "\<exists>ctx'. pdfi_read_string ctx sel = (Inr (), ctx')
           \<and> top_data ctx' = Some (pre @ vs @ post)
           \<and> remaining (get_stream ctx' sel) = rest"
proof -
  have n0: "neutral init_string_locals" "index init_string_locals = 0"
    "content init_string_locals = []"
    by (simp_all add: neutral_def init_string_locals_def content_def)
  from plain_run [OF assms(1) n0(1), of ctx sel "[0x5C, e] @ post @ [0x29] @ rest"] assms(3,5) n0
  obtain c1 s1 where 1: "read_string_loop sel (ctx, init_string_locals) = read_string_loop sel (c1, s1)"
    "neutral s1" "index s1 = length pre" "content s1 = pre"
    "remaining (get_stream c1 sel) = 0x5C # e # post @ 0x29 # rest"
    by auto
  from assms(4) have lv: "length vs \<le> 1" by (auto simp: escape_bytes_def split: if_splits)
  from escape_steps [OF assms(4) 1(2), of c1 sel "post @ 0x29 # rest"] 1 assms(3)
  obtain c2 s2 where 2: "read_string_loop sel (c1, s1) = read_string_loop sel (c2, s2)"
    "neutral s2" "index s2 = length pre + length vs" "content s2 = pre @ vs"
    "remaining (get_stream c2 sel) = post @ 0x29 # rest"
    by auto
  from plain_run_close [OF assms(2) 2(2), of c2 sel rest] 2 assms(3) lv
  obtain c3 s3 where 3: "read_string_loop sel (c2, s2) = (None, c3, s3)"
    "content s3 = pre @ vs @ post" "remaining (get_stream c3 sel) = rest"
    by auto
  obtain c4 a where al: "pdfi_alloc_object c3 PDF_STRING (index s3) = (Inr a, c4)"
    by (simp add: pdfi_alloc_object_def Let_def)
  from 1 2 3 al have "pdfi_read_string ctx sel =
      (Inr (), pdfi_push (c4\<lparr>heap := upd_obj (heap c4) a (\<lambda>ob. ob\<lparr>o_data := content s3\<rparr>)\<rparr>) a)"
    by (simp add: pdfi_read_string_def string_build_def content_def)
  with 3 top_data_new_string [OF al] get_stream_after_build [OF al] show ?thesis
    by simp
qed


definition empty_stream :: pdf_stream where
  "empty_stream = \<lparr> s_data = [], s_pos = 0, unread_buf = [], eof = False \<rparr>"

definition empty_context :: pdf_context where
  "empty_context =
     \<lparr> pdfstoponerror = False, pdf_errors = {}, heap = [], stack = [],
       main_stream = empty_stream, main_stream_length = 0, sub_stream = empty_stream,
       decoded = [], xref_table = None, cache_nodes = [], cache_LRU = None,
       cache_MRU = None, cache_entries = 0, loop_detection = None, Root = None,
       repaired = False \<rparr>"

definition context_of_bytes :: "byte list \<Rightarrow> pdf_context" where
  "context_of_bytes bs =
     empty_context\<lparr>main_stream := empty_stream\<lparr>s_data := bs\<rparr>,
                   main_stream_length := int (length bs)\<rparr>"



definition settle_octal :: "string_locals \<Rightarrow> string_locals" where
  "settle_octal st =
     (if octal_index st = 0 then st
      else (flush_octal st)\<lparr>index := (index st + 1) mod 65536, escape := False,
                              skip_eol_flag := False\<rparr>)"


text \<open>What holds of the locals whenever the loop body starts.\<close>

definition loop_head :: "string_locals \<Rightarrow> bool" where
  "loop_head st = (index st \<le> length (Buffer st) \<and> \<not> exit_loop st)"






lemma put_char_fields [simp]:
  "index (put_char st c) = index st" "exit_loop (put_char st c) = exit_loop st"
  "escape (put_char st c) = escape st" "octal_index (put_char st c) = octal_index st"
  "skip_eol_flag (put_char st c) = skip_eol_flag st" "nesting (put_char st c) = nesting st"
  "octal (put_char st c) = octal st"
  by (simp_all add: put_char_def)

lemma flush_octal_fields [simp]:
  "index (flush_octal st) = index st" "exit_loop (flush_octal st) = exit_loop st"
  by (simp_all add: flush_octal_def)

lemma put_char_room [simp]:
  "index st < length (Buffer st) \<Longrightarrow> length (Buffer (put_char st c)) = length (Buffer st)"
  by (simp add: put_char_def buf_put_def)

lemma flush_octal_room [simp]:
  "index st < length (Buffer st) \<Longrightarrow> length (Buffer (flush_octal st)) = length (Buffer st)"
  by (simp add: flush_octal_def put_char_def buf_put_def)







lemma put_char_twice [simp]:
  "index st \<le> length (Buffer st) \<Longrightarrow> put_char (put_char st a) b = put_char st b"
  by (simp add: put_char_def)




lemma settle_octal_head:
  "loop_head st \<Longrightarrow> loop_head (settle_octal st) \<and> octal_index (settle_octal st) = 0
     \<and> \<not> escape (settle_octal st) = (octal_index st \<noteq> 0 \<or> \<not> escape st)"
  by (auto simp: settle_octal_def loop_head_def flush_octal_def put_char_def buf_put_def
      intro: order_trans [OF mod_less_eq_dividend])













subsection \<open>Malformed numbers\<close>

text \<open>
  The words of the claim: a number is a run of digits, signs and decimal points; it is
  malformed when it has a second decimal point, or a sign that is not its first
  character. After the run the stream holds \<open>rest\<close>, which is empty or starts with a
  byte that is not a number character; \<open>after_run rest\<close> is \<open>rest\<close> without that byte
  when it is white space.
\<close>


definition number_char :: "byte \<Rightarrow> bool" where
  "number_char c = (is_digit c \<or> c = 0x2E \<or> c = 0x2B \<or> c = 0x2D)"

definition malformed_number :: "byte list \<Rightarrow> bool" where
  "malformed_number run =
     (2 \<le> count_list run 0x2E \<or> 0x2B \<in> set (tl run) \<or> 0x2D \<in> set (tl run))"

definition after_run :: "byte list \<Rightarrow> byte list" where
  "after_run rest = (case rest of [] \<Rightarrow> [] | t # r \<Rightarrow> if iswhite t then r else t # r)"

definition top_int :: "pdf_context \<Rightarrow> int option" where
  "top_int ctx =
     (case stack ctx of [] \<Rightarrow> None | a # _ \<Rightarrow>
        (case obj_at (heap ctx) a of None \<Rightarrow> None
         | Some ob \<Rightarrow> if o_type ob = PDF_INT then Some (num_i ob) else None))"

fun bad_from :: "nat \<Rightarrow> bool \<Rightarrow> byte list \<Rightarrow> bool" where
  "bad_from i r [] = False"
| "bad_from i r (c # cs) =
     ((c = 0x2E \<and> r) \<or> ((c = 0x2D \<or> c = 0x2B) \<and> i \<noteq> 0) \<or> bad_from (i + 1) (r \<or> c = 0x2E) cs)"

lemma bad_from_eq:
  "bad_from i r cs =
     ((r \<and> 0x2E \<in> set cs) \<or> 2 \<le> count_list cs 0x2E
      \<or> (i \<noteq> 0 \<and> (0x2B \<in> set cs \<or> 0x2D \<in> set cs))
      \<or> 0x2B \<in> set (tl cs) \<or> 0x2D \<in> set (tl cs))"
proof (induction cs arbitrary: i r)
  case Nil
  then show ?case by simp
next
  case (Cons c cs)
  have pos: "0 < count_list cs (0x2E :: byte) \<longleftrightarrow> 0x2E \<in> set cs"
    by (metis count_list_0_iff gr0I not_gr_zero)
  have tl_sub: "\<And>x. x \<in> set (tl cs) \<Longrightarrow> x \<in> set cs"
    by (cases cs) auto
  show ?case
    using pos tl_sub by (auto simp: Cons.IH)
qed

lemma bad_from_malformed: "bad_from 0 False run = malformed_number run"
  by (simp add: bad_from_eq malformed_number_def)

lemma num_loop_Continue:
  "read_num_iter sel x = Continue y \<Longrightarrow> read_num_loop sel x = read_num_loop sel y"
  by (subst read_num_loop.simps) simp

lemma num_loop_Break:
  "read_num_iter sel x = Break y \<Longrightarrow> read_num_loop sel x = (None, y)"
  by (subst read_num_loop.simps) simp

lemma num_loop_Return:
  "read_num_iter sel x = Return_error e y \<Longrightarrow> read_num_loop sel x = (Some e, y)"
  by (subst read_num_loop.simps) simp

lemma number_char_not_white: "number_char c \<Longrightarrow> \<not> iswhite c \<and> \<not> isdelimiter c"
  by (auto simp: number_char_def iswhite_def isdelimiter_def is_digit_def)

lemma number_char_cases:
  "number_char c \<Longrightarrow> c \<noteq> 0x2E \<Longrightarrow> c \<noteq> 0x2D \<Longrightarrow> c \<noteq> 0x2B \<Longrightarrow> \<not> (c < 0x30 \<or> c > 0x39)"
  by (auto simp: number_char_def is_digit_def)

lemma num_step:
  assumes "number_char c" "\<not> pdfstoponerror ctx" "num_index st < 255"
    and "remaining (get_stream ctx sel) = c # r"
  shows "\<exists>ctx1 st1. read_num_iter sel (ctx, st) = Continue (ctx1, st1)
           \<and> remaining (get_stream ctx1 sel) = r \<and> \<not> pdfstoponerror ctx1
           \<and> pdf_errors ctx1 = pdf_errors ctx
           \<and> num_index st1 = num_index st + 1
           \<and> real st1 = (real st \<or> c = 0x2E)
           \<and> malformed st1 = (malformed st \<or> (c = 0x2E \<and> real st)
                                \<or> ((c = 0x2D \<or> c = 0x2B) \<and> num_index st \<noteq> 0))"
proof -
  from read_ctx_next [OF assms(4)] obtain ctx1 where
    r: "read_ctx ctx sel = (1, Some c, ctx1)" and rem: "remaining (get_stream ctx1 sel) = r"
    by blast
  from r have c1: "pdfstoponerror ctx1 = pdfstoponerror ctx" "pdf_errors ctx1 = pdf_errors ctx"
    by (cases sel; auto simp: read_ctx_def set_stream_def split: prod.splits)+
  from assms(1-3) r rem c1 number_char_not_white [OF assms(1)] number_char_cases [OF assms(1)]
  show ?thesis
    by (auto simp: read_num_iter_def num_char_def num_next_def num_put_def)
qed


lemma num_run:
  "list_all number_char cs \<Longrightarrow> \<not> pdfstoponerror ctx \<Longrightarrow> num_index st + length cs \<le> 255 \<Longrightarrow>
   remaining (get_stream ctx sel) = cs @ rest \<Longrightarrow>
   \<exists>ctx' st'. read_num_loop sel (ctx, st) = read_num_loop sel (ctx', st')
      \<and> remaining (get_stream ctx' sel) = rest \<and> \<not> pdfstoponerror ctx'
      \<and> pdf_errors ctx' = pdf_errors ctx
      \<and> num_index st' = num_index st + length cs
      \<and> real st' = (real st \<or> 0x2E \<in> set cs)
      \<and> malformed st' = (malformed st \<or> bad_from (num_index st) (real st) cs)"
proof (induction cs arbitrary: ctx st)
  case Nil
  then show ?case by auto
next
  case (Cons c cs)
  have "number_char c" "num_index st < 255" using Cons.prems by auto
  moreover have "remaining (get_stream ctx sel) = c # (cs @ rest)" using Cons.prems(4) by simp
  ultimately have "\<exists>ctx1 st1. read_num_iter sel (ctx, st) = Continue (ctx1, st1)
           \<and> remaining (get_stream ctx1 sel) = cs @ rest \<and> \<not> pdfstoponerror ctx1
           \<and> pdf_errors ctx1 = pdf_errors ctx
           \<and> num_index st1 = num_index st + 1
           \<and> real st1 = (real st \<or> c = 0x2E)
           \<and> malformed st1 = (malformed st \<or> (c = 0x2E \<and> real st)
                                \<or> ((c = 0x2D \<or> c = 0x2B) \<and> num_index st \<noteq> 0))"
    using Cons.prems(2) by (intro num_step)
  then obtain ctx1 st1 where s: "read_num_iter sel (ctx, st) = Continue (ctx1, st1)"
    "remaining (get_stream ctx1 sel) = cs @ rest" "\<not> pdfstoponerror ctx1"
    "pdf_errors ctx1 = pdf_errors ctx"
    "num_index st1 = num_index st + 1" "real st1 = (real st \<or> c = 0x2E)"
    "malformed st1 = (malformed st \<or> (c = 0x2E \<and> real st)
                                \<or> ((c = 0x2D \<or> c = 0x2B) \<and> num_index st \<noteq> 0))"
    by blast
  have "\<exists>ctx' st'. read_num_loop sel (ctx1, st1) = read_num_loop sel (ctx', st')
      \<and> remaining (get_stream ctx' sel) = rest \<and> \<not> pdfstoponerror ctx'
      \<and> pdf_errors ctx' = pdf_errors ctx1
      \<and> num_index st' = num_index st1 + length cs
      \<and> real st' = (real st1 \<or> 0x2E \<in> set cs)
      \<and> malformed st' = (malformed st1 \<or> bad_from (num_index st1) (real st1) cs)"
    using Cons.prems s by (intro Cons.IH) auto
  then obtain ctx' st' where f: "read_num_loop sel (ctx1, st1) = read_num_loop sel (ctx', st')"
      "remaining (get_stream ctx' sel) = rest" "\<not> pdfstoponerror ctx'"
      "pdf_errors ctx' = pdf_errors ctx1"
      "num_index st' = num_index st1 + length cs"
      "real st' = (real st1 \<or> 0x2E \<in> set cs)"
      "malformed st' = (malformed st1 \<or> bad_from (num_index st1) (real st1) cs)"
    by blast
  show ?case
    apply (rule exI [of _ ctx'], rule exI [of _ st'])
    using s f by (auto simp: num_loop_Continue)
qed

lemma read_ctx_end:
  assumes "remaining (get_stream ctx sel) = []"
  shows "\<exists>ctx1. read_ctx ctx sel = (0, None, ctx1) \<and> eof (get_stream ctx1 sel)
           \<and> remaining (get_stream ctx1 sel) = []
           \<and> pdf_errors ctx1 = pdf_errors ctx"
  using assms
  by (cases sel)
     (auto simp: read_ctx_def pdfi_read_byte_def remaining_def get_stream_def set_stream_def)

lemma read_ctx_keeps:
  "read_ctx ctx sel = (n, co, ctx1) \<Longrightarrow>
     pdfstoponerror ctx1 = pdfstoponerror ctx \<and> pdf_errors ctx1 = pdf_errors ctx"
  by (cases sel; auto simp: read_ctx_def set_stream_def split: prod.splits)


lemma unread_ctx_errors [simp]: "pdf_errors (unread_ctx ctx sel bs) = pdf_errors ctx"
  by (cases sel) (simp_all add: unread_ctx_def set_stream_def)

lemma num_end:
  assumes "rest = [] \<or> \<not> number_char (hd rest)" "\<not> pdfstoponerror ctx"
    and "remaining (get_stream ctx sel) = rest"
  shows "\<exists>ctx' st'. read_num_loop sel (ctx, st) = (None, ctx', st')
      \<and> remaining (get_stream ctx' sel) = after_run rest
      \<and> pdf_errors ctx \<subseteq> pdf_errors ctx'
      \<and> num_index st' = num_index st \<and> real st' = real st \<and> malformed st' = malformed st"
proof (cases rest)
  case Nil
  with read_ctx_end [of ctx sel] assms(3) obtain ctx1 where
    "read_ctx ctx sel = (0, None, ctx1)" "eof (get_stream ctx1 sel)"
    "remaining (get_stream ctx1 sel) = []" "pdf_errors ctx1 = pdf_errors ctx"
    by auto
  then have "read_num_iter sel (ctx, st) = Break (ctx1, num_put st 0x00)"
    by (simp add: read_num_iter_def)
  then have "read_num_loop sel (ctx, st) = (None, ctx1, num_put st 0x00)"
    by (rule num_loop_Break)
  with Nil \<open>remaining (get_stream ctx1 sel) = []\<close> \<open>pdf_errors ctx1 = pdf_errors ctx\<close>
  show ?thesis by (simp add: after_run_def num_put_def)
next
  case (Cons t r)
  with assms(1) have nn: "\<not> number_char t" by simp
  from read_ctx_next [of ctx sel t r] assms(3) Cons obtain ctx1 where
    r: "read_ctx ctx sel = (1, Some t, ctx1)" and rem: "remaining (get_stream ctx1 sel) = r"
    by auto
  from read_ctx_keeps [OF r] assms(2) have k: "\<not> pdfstoponerror ctx1" "pdf_errors ctx1 = pdf_errors ctx"
    by auto
  from nn have nd: "t \<noteq> 0x2E" "t \<noteq> 0x2D" "t \<noteq> 0x2B" "t < 0x30 \<or> t > 0x39"
    by (auto simp: number_char_def is_digit_def)
  have "\<exists>ctx' st'. read_num_iter sel (ctx, st) = Break (ctx', st')
      \<and> remaining (get_stream ctx' sel) = after_run rest
      \<and> pdf_errors ctx \<subseteq> pdf_errors ctx'
      \<and> num_index st' = num_index st \<and> real st' = real st \<and> malformed st' = malformed st"
    using r rem k nd Cons
    by (auto simp: read_num_iter_def num_char_def num_put_def after_run_def)
  then show ?thesis by (auto simp: num_loop_Break)
qed

lemma num_stop:
  "list_all number_char cs \<Longrightarrow> pdfstoponerror ctx \<Longrightarrow> bad_from (num_index st) (real st) cs \<Longrightarrow>
   remaining (get_stream ctx sel) = cs @ rest \<Longrightarrow>
   fst (read_num_loop sel (ctx, st)) = Some gs_error_syntaxerror"
proof (induction cs arbitrary: ctx st)
  case Nil
  then show ?case by simp
next
  case (Cons c cs)
  from read_ctx_next [of ctx sel c "cs @ rest"] Cons.prems(4) obtain ctx1 where
    r: "read_ctx ctx sel = (1, Some c, ctx1)" and rem: "remaining (get_stream ctx1 sel) = cs @ rest"
    by auto
  from read_ctx_keeps [OF r] Cons.prems(2) have k: "pdfstoponerror ctx1" by simp
  have nc: "number_char c" using Cons.prems(1) by simp
  note nw = number_char_not_white [OF nc] number_char_cases [OF nc]
  show ?case
  proof (cases "(c = 0x2E \<and> real st) \<or> ((c = 0x2D \<or> c = 0x2B) \<and> num_index st \<noteq> 0)")
    case True
    then have "read_num_iter sel (ctx, st) = Return_error gs_error_syntaxerror (ctx1, num_put st c)"
      using r k nw by (auto simp: read_num_iter_def num_char_def num_put_def)
    then show ?thesis by (simp add: num_loop_Return)
  next
    case False
    with Cons.prems(3) have b: "bad_from (num_index st + 1) (real st \<or> c = 0x2E) cs" by auto
    show ?thesis
    proof (cases "num_index st + 1 > 255")
      case True
      with False have "\<exists>y. read_num_iter sel (ctx, st) = Return_error gs_error_syntaxerror y"
        using r k nw by (auto simp: read_num_iter_def num_char_def num_put_def num_next_def)
      then show ?thesis by (auto simp: num_loop_Return)
    next
      case le: False
      with False have "\<exists>st1. read_num_iter sel (ctx, st) = Continue (ctx1, st1)
          \<and> num_index st1 = num_index st + 1 \<and> real st1 = (real st \<or> c = 0x2E)"
        using r k nw by (auto simp: read_num_iter_def num_char_def num_put_def num_next_def)
      then obtain st1 where s: "read_num_iter sel (ctx, st) = Continue (ctx1, st1)"
          "num_index st1 = num_index st + 1" "real st1 = (real st \<or> c = 0x2E)"
        by blast
      have "fst (read_num_loop sel (ctx1, st1)) = Some gs_error_syntaxerror"
        using Cons.prems(1) k b s rem by (intro Cons.IH) auto
      with s show ?thesis by (simp add: num_loop_Continue)
    qed
  qed
qed

lemma num_long:
  "list_all number_char cs \<Longrightarrow> num_index st \<le> 255 \<Longrightarrow> 255 < num_index st + length cs \<Longrightarrow>
   remaining (get_stream ctx sel) = cs @ rest \<Longrightarrow>
   fst (read_num_loop sel (ctx, st)) = Some gs_error_syntaxerror"
proof (induction cs arbitrary: ctx st)
  case Nil
  then show ?case by simp
next
  case (Cons c cs)
  from read_ctx_next [of ctx sel c "cs @ rest"] Cons.prems(4) obtain ctx1 where
    r: "read_ctx ctx sel = (1, Some c, ctx1)" and rem: "remaining (get_stream ctx1 sel) = cs @ rest"
    by auto
  have nc: "number_char c" using Cons.prems(1) by simp
  note nw = number_char_not_white [OF nc] number_char_cases [OF nc]
  have "(\<exists>y. read_num_iter sel (ctx, st) = Return_error gs_error_syntaxerror y)
      \<or> (num_index st + 1 \<le> 255 \<and> (\<exists>st1. read_num_iter sel (ctx, st) = Continue (ctx1, st1)
          \<and> num_index st1 = num_index st + 1))"
    using r nw by (auto simp: read_num_iter_def num_char_def num_put_def num_next_def)
  then show ?case
  proof
    assume "\<exists>y. read_num_iter sel (ctx, st) = Return_error gs_error_syntaxerror y"
    then show ?thesis by (auto simp: num_loop_Return)
  next
    assume "num_index st + 1 \<le> 255 \<and> (\<exists>st1. read_num_iter sel (ctx, st) = Continue (ctx1, st1)
          \<and> num_index st1 = num_index st + 1)"
    then obtain st1 where s: "num_index st + 1 \<le> 255"
      "read_num_iter sel (ctx, st) = Continue (ctx1, st1)" "num_index st1 = num_index st + 1"
      by blast
    have "fst (read_num_loop sel (ctx1, st1)) = Some gs_error_syntaxerror"
      using Cons.prems s rem by (intro Cons.IH) auto
    with s show ?thesis by (simp add: num_loop_Continue)
  qed
qed

lemma skip_white_nonwhite:
  assumes "remaining (get_stream ctx sel) = c # r" "\<not> iswhite c"
  shows "remaining (get_stream (snd (skip_white ctx sel)) sel) = c # r
         \<and> pdfstoponerror (snd (skip_white ctx sel)) = pdfstoponerror ctx
         \<and> pdf_errors (snd (skip_white ctx sel)) = pdf_errors ctx"
proof -
  from read_ctx_next [OF assms(1)] obtain ctx1 where
    r: "read_ctx ctx sel = (1, Some c, ctx1)" and rem: "remaining (get_stream ctx1 sel) = r"
    by blast
  from read_ctx_keeps [OF r] have k: "pdfstoponerror ctx1 = pdfstoponerror ctx"
    "pdf_errors ctx1 = pdf_errors ctx" by auto
  have "skip_white ctx sel = (Inr (), unread_ctx ctx1 sel [c])"
    unfolding skip_white_def using r assms(2) by (subst skip_white_loop.simps) simp
  moreover have "pdfstoponerror (unread_ctx ctx1 sel [c]) = pdfstoponerror ctx1"
    by (cases sel) (simp_all add: unread_ctx_def set_stream_def)
  ultimately show ?thesis using rem k by simp
qed


lemma top_int_new:
  "pdfi_alloc_object ctx PDF_INT n = (Inr a, ctx2) \<Longrightarrow>
   top_int (pdfi_push (ctx2\<lparr>pdf_errors := e,
      heap := upd_obj (heap ctx2) a (\<lambda>ob. ob\<lparr>num_i := v\<rparr>)\<rparr>) a) = Some v"
  by (auto simp: pdfi_alloc_object_def top_int_def pdfi_push_def upd_obj_def obj_at_def
      pdfi_countup_def zero_obj_def Let_def nth_append)

lemma alloc_keeps:
  "pdfi_alloc_object ctx t n = (Inr a, ctx2) \<Longrightarrow>
   pdf_errors ctx2 = pdf_errors ctx \<and> get_stream ctx2 sel = get_stream ctx sel"
  by (cases sel) (auto simp: pdfi_alloc_object_def get_stream_def Let_def split: if_splits)

lemma get_stream_push [simp]:
  "get_stream (pdfi_push (ctx\<lparr>pdf_errors := e, heap := h\<rparr>) a) sel = get_stream ctx sel"
  by (cases sel) (simp_all add: pdfi_push_def get_stream_def)


text \<open>
  Claim C8, as amended. A malformed number is read as follows. When stop-on-error is set
  the reader returns a syntax error. When it is not set and the run is at most 255 bytes
  long, the reader pushes an integer object with the value 0, sets the flag
  \<open>E_PDF_MALFORMEDNUMBER\<close> in the error mask, and leaves the stream after the run, and
  after the white-space byte that ended the run when one did (a delimiter or another byte
  that ended it is pushed back). A run of 256 bytes or more is a syntax error, whether
  stop-on-error is set or not.
\<close>

theorem pdfi_read_num_malformed:
  assumes "list_all number_char run" "malformed_number run"
    and "rest = [] \<or> \<not> number_char (hd rest)"
    and "remaining (get_stream ctx sel) = run @ rest"
  shows "(pdfstoponerror ctx \<longrightarrow> fst (pdfi_read_num ctx sel) = Inl gs_error_syntaxerror)
       \<and> (\<not> pdfstoponerror ctx \<and> length run \<le> 255 \<longrightarrow>
            (\<exists>ctx'. pdfi_read_num ctx sel = (Inr (), ctx') \<and> top_int ctx' = Some 0
               \<and> E_PDF_MALFORMEDNUMBER \<in> pdf_errors ctx'
               \<and> remaining (get_stream ctx' sel) = after_run rest))
       \<and> (255 < length run \<longrightarrow> fst (pdfi_read_num ctx sel) = Inl gs_error_syntaxerror)"
proof -
  from assms(2) obtain c cs where run: "run = c # cs"
    by (cases run) (auto simp: malformed_number_def)
  with assms(1) have "number_char c" by simp
  then have nw: "\<not> iswhite c" by (simp add: number_char_not_white)
  define ctx0 where "ctx0 = snd (skip_white ctx sel)"
  from skip_white_nonwhite [of ctx sel c "cs @ rest"] assms(4) run nw
  have sw: "remaining (get_stream ctx0 sel) = run @ rest"
    "pdfstoponerror ctx0 = pdfstoponerror ctx" "pdf_errors ctx0 = pdf_errors ctx"
    by (simp_all add: ctx0_def)
  have bad: "bad_from (num_index init_num_locals) (real init_num_locals) run"
    using assms(2) by (simp add: init_num_locals_def bad_from_malformed)
  have stop: "fst (pdfi_read_num ctx sel) = Inl gs_error_syntaxerror" if "pdfstoponerror ctx"
  proof -
    from that sw have "pdfstoponerror ctx0" by simp
    from num_stop [OF assms(1) this bad sw(1)]
    show ?thesis
      by (auto simp: pdfi_read_num_def ctx0_def split: prod.splits option.splits)
  qed
  have go: "\<exists>ctx'. pdfi_read_num ctx sel = (Inr (), ctx') \<and> top_int ctx' = Some 0
               \<and> E_PDF_MALFORMEDNUMBER \<in> pdf_errors ctx'
               \<and> remaining (get_stream ctx' sel) = after_run rest"
    if "\<not> pdfstoponerror ctx" "length run \<le> 255"
  proof -
    from that sw have ns: "\<not> pdfstoponerror ctx0" by simp
    have "num_index init_num_locals + length run \<le> 255"
      using that by (simp add: init_num_locals_def)
    from num_run [OF assms(1) ns this sw(1)] obtain c1 s1 where
      1: "read_num_loop sel (ctx0, init_num_locals) = read_num_loop sel (c1, s1)"
      "remaining (get_stream c1 sel) = rest" "\<not> pdfstoponerror c1"
      "malformed s1 = (malformed init_num_locals \<or> bad_from (num_index init_num_locals) (real init_num_locals) run)"
      by blast
    with bad have m1: "malformed s1" by simp
    from num_end [OF assms(3) 1(3) 1(2), of s1] obtain c2 s2 where
      2: "read_num_loop sel (c1, s1) = (None, c2, s2)"
      "remaining (get_stream c2 sel) = after_run rest" "malformed s2 = malformed s1"
      by blast
    obtain c3 a where al: "pdfi_alloc_object c2 PDF_INT 0 = (Inr a, c3)"
      by (simp add: pdfi_alloc_object_def Let_def)
    from 1 2 m1 al have "pdfi_read_num ctx sel =
      (Inr (), pdfi_push (c3\<lparr>pdf_errors := insert E_PDF_MALFORMEDNUMBER (pdf_errors c3),
          heap := upd_obj (heap c3) a (\<lambda>ob. ob\<lparr>num_i := 0\<rparr>)\<rparr>) a)"
      by (simp add: pdfi_read_num_def num_build_def ctx0_def)
    moreover have "E_PDF_MALFORMEDNUMBER \<in> pdf_errors (pdfi_push (c3\<lparr>pdf_errors := insert E_PDF_MALFORMEDNUMBER (pdf_errors c3),
          heap := upd_obj (heap c3) a (\<lambda>ob. ob\<lparr>num_i := 0\<rparr>)\<rparr>) a)"
      by (simp add: pdfi_push_def)
    ultimately show ?thesis
      using top_int_new [OF al] alloc_keeps [OF al, of sel] 2(2) by simp
  qed
  have long: "fst (pdfi_read_num ctx sel) = Inl gs_error_syntaxerror" if "255 < length run"
  proof -
    have "fst (read_num_loop sel (ctx0, init_num_locals)) = Some gs_error_syntaxerror"
      using that by (intro num_long [OF assms(1) _ _ sw(1)]) (simp_all add: init_num_locals_def)
    then show ?thesis
      by (auto simp: pdfi_read_num_def ctx0_def split: prod.splits option.splits)
  qed
  from stop go long show ?thesis by blast
qed

definition stop_on_error :: "pdf_context \<Rightarrow> pdf_context" where
  "stop_on_error ctx = ctx\<lparr>pdfstoponerror := True\<rparr>"

theorem pdfi_read_num_malformed_witness:
  "(\<exists>ctx'. pdfi_read_num (context_of_bytes [0x31, 0x32, 0x2E, 0x35, 0x2E, 0x33]) MAIN = (Inr (), ctx')
       \<and> top_int ctx' = Some 0 \<and> E_PDF_MALFORMEDNUMBER \<in> pdf_errors ctx'
       \<and> remaining (get_stream ctx' MAIN) = [])
   \<and> fst (pdfi_read_num (stop_on_error (context_of_bytes [0x31, 0x32, 0x2E, 0x35, 0x2E, 0x33])) MAIN)
       = Inl gs_error_syntaxerror
   \<and> fst (pdfi_read_num (context_of_bytes (0x31 # 0x2B # replicate 254 0x30)) MAIN)
       = Inl gs_error_syntaxerror"
  using pdfi_read_num_malformed [of "[0x31, 0x32, 0x2E, 0x35, 0x2E, 0x33]" "[]"
      "context_of_bytes [0x31, 0x32, 0x2E, 0x35, 0x2E, 0x33]" MAIN]
    pdfi_read_num_malformed [of "[0x31, 0x32, 0x2E, 0x35, 0x2E, 0x33]" "[]"
      "stop_on_error (context_of_bytes [0x31, 0x32, 0x2E, 0x35, 0x2E, 0x33])" MAIN]
    pdfi_read_num_malformed [of "0x31 # 0x2B # replicate 254 0x30" "[]"
      "context_of_bytes (0x31 # 0x2B # replicate 254 0x30)" MAIN]
  by (simp add: number_char_def is_digit_def malformed_number_def context_of_bytes_def
      empty_context_def empty_stream_def remaining_def get_stream_def after_run_def
      stop_on_error_def list_all_iff)


text \<open>
  The claim as stated does not hold for every malformed number: the loop gives up with a
  syntax error once it has stored 256 bytes, also when stop-on-error is not set. The
  number \<open>1.5.3\<close> followed by 251 zeros is such a run.
\<close>

definition long_number :: "byte list" where
  "long_number = [0x31, 0x2E, 0x35, 0x2E, 0x33] @ replicate 251 0x30"

theorem pdfi_read_num_long_counterexample:
  "malformed_number long_number \<and> \<not> pdfstoponerror (context_of_bytes long_number)
   \<and> fst (pdfi_read_num (context_of_bytes long_number) MAIN) = Inl gs_error_syntaxerror"
proof -
  have nc: "list_all number_char long_number"
    by (simp add: long_number_def number_char_def is_digit_def list_all_iff)
  have rem: "remaining (get_stream (context_of_bytes long_number) MAIN) = long_number @ []"
    by (simp add: context_of_bytes_def empty_context_def empty_stream_def remaining_def
        get_stream_def)
  have hd: "long_number = 0x31 # ([0x2E, 0x35, 0x2E, 0x33] @ replicate 251 0x30)"
    by (simp add: long_number_def)
  have "\<not> iswhite (0x31 :: byte)" by (simp add: iswhite_def)
  with skip_white_nonwhite [of "context_of_bytes long_number" MAIN "0x31"
      "[0x2E, 0x35, 0x2E, 0x33] @ replicate 251 0x30"] rem hd
  have sw: "remaining (get_stream (snd (skip_white (context_of_bytes long_number) MAIN)) MAIN)
      = long_number @ []"
    by simp
  have "fst (read_num_loop MAIN (snd (skip_white (context_of_bytes long_number) MAIN), init_num_locals))
      = Some gs_error_syntaxerror"
    by (rule num_long [OF nc _ _ sw]) (simp_all add: init_num_locals_def long_number_def)
  then have "fst (pdfi_read_num (context_of_bytes long_number) MAIN) = Inl gs_error_syntaxerror"
    by (auto simp: pdfi_read_num_def split: prod.splits option.splits)
  moreover have "malformed_number long_number"
    by (simp add: malformed_number_def long_number_def)
  moreover have "\<not> pdfstoponerror (context_of_bytes long_number)"
    by (simp add: context_of_bytes_def empty_context_def)
  ultimately show ?thesis by simp
qed



section \<open>Allocation of composite objects\<close>


text \<open>
  \<open>pdfi_array_alloc\<close> of \<open>pdf_array.c\<close>: the array is allocated, and when it has slots
  one null object is allocated and every slot is made to point at it, counting it up once
  per slot. \<open>array_fill k a n h i\<close> is the loop \<open>for (i = 0; i < size; i++)\<close> with \<open>k\<close>
  iterations left. The loop counter is an \<open>int\<close> and \<open>pdfi_alloc_object\<close> takes the
  size as an \<open>unsigned int\<close>: from \<open>2^31\<close> slots on the counter overflows, which is
  marked as an invalid run.
\<close>

fun array_fill :: "nat \<Rightarrow> addr \<Rightarrow> addr \<Rightarrow> pdf_obj option list \<Rightarrow> nat \<Rightarrow> pdf_obj option list" where
  "array_fill 0 a n h i = h"
| "array_fill (Suc k) a n h i =
     array_fill k a n
       (pdfi_countup (upd_obj h a (\<lambda>ob. ob\<lparr>o_values := (o_values ob)[i := Some n]\<rparr>)) n) (i + 1)"

definition pdfi_array_alloc :: "pdf_context \<Rightarrow> nat \<Rightarrow> addr res" where
  "pdfi_array_alloc ctx sz =
     (if 2 ^ 31 \<le> sz then (Inl invalid_memory_access, ctx)
      else
        case pdfi_alloc_object ctx PDF_ARRAY sz of
          (Inl e, ctx1) \<Rightarrow> (Inl e, ctx1)
        | (Inr a, ctx1) \<Rightarrow>
            let ctx2 = ctx1\<lparr>heap := upd_obj (heap ctx1) a (\<lambda>ob. ob\<lparr>o_size := sz\<rparr>)\<rparr> in
            if 0 < sz then
              (case pdfi_alloc_object ctx2 PDF_NULL 1 of
                 (Inl e, ctx3) \<Rightarrow> (Inl e, ctx3\<lparr>heap := pdfi_countdown (heap ctx3) a\<rparr>)
               | (Inr n, ctx3) \<Rightarrow> (Inr a, ctx3\<lparr>heap := array_fill sz a n (heap ctx3) 0\<rparr>))
            else (Inr a, ctx2))"

lemma obj_at_upd_same:
  "obj_at h a = Some ob \<Longrightarrow> obj_at (upd_obj h a f) a = Some (f ob)"
  by (auto simp: obj_at_def upd_obj_def split: if_splits)

lemma obj_at_upd_other:
  "b \<noteq> a \<Longrightarrow> obj_at (upd_obj h a f) b = obj_at h b"
  by (auto simp: obj_at_def upd_obj_def split: option.splits)

lemma array_fill_spec:
  "a \<noteq> n \<Longrightarrow> obj_at h a = Some A \<Longrightarrow> obj_at h n = Some N \<Longrightarrow> i + k \<le> length (o_values A) \<Longrightarrow>
   obj_at (array_fill k a n h i) a
     = Some (A\<lparr>o_values := take i (o_values A) @ replicate k (Some n) @ drop (i + k) (o_values A)\<rparr>)
   \<and> obj_at (array_fill k a n h i) n = Some (N\<lparr>refcnt := refcnt N + int k\<rparr>)"
proof (induction k arbitrary: h i A N)
  case 0
  then show ?case by simp
next
  case (Suc k)
  let ?A = "A\<lparr>o_values := (o_values A)[i := Some n]\<rparr>"
  let ?N = "N\<lparr>refcnt := refcnt N + 1\<rparr>"
  let ?h = "pdfi_countup (upd_obj h a (\<lambda>ob. ob\<lparr>o_values := (o_values ob)[i := Some n]\<rparr>)) n"
  have a: "obj_at ?h a = Some ?A"
    using Suc.prems by (simp add: pdfi_countup_def obj_at_upd_same obj_at_upd_other)
  have n: "obj_at ?h n = Some ?N"
    using Suc.prems by (simp add: pdfi_countup_def obj_at_upd_same obj_at_upd_other)
  have len: "(i + 1) + k \<le> length (o_values ?A)" using Suc.prems by simp
  from Suc.IH [OF Suc.prems(1) a n len]
  have "obj_at (array_fill k a n ?h (i + 1)) a
     = Some (?A\<lparr>o_values := take (i + 1) (o_values ?A) @ replicate k (Some n)
          @ drop (i + 1 + k) (o_values ?A)\<rparr>)"
    and "obj_at (array_fill k a n ?h (i + 1)) n = Some (?N\<lparr>refcnt := refcnt ?N + int k\<rparr>)"
    by simp_all
  moreover have "take (i + 1) ((o_values A)[i := Some n]) = take i (o_values A) @ [Some n]"
    using Suc.prems(4) by (simp add: take_Suc_conv_app_nth)
  moreover have "drop (i + 1 + k) ((o_values A)[i := Some n]) = drop (i + Suc k) (o_values A)"
    by simp
  ultimately show ?case by (simp add: replicate_app_Cons_same)
qed

text \<open>
  What a caller sees of a fresh composite: the key slots and the value slots of the
  object at an address, and the reference count of a null object.
\<close>

definition slots_of :: "pdf_context \<Rightarrow> addr \<Rightarrow> (addr option list \<times> addr option list) option" where
  "slots_of ctx a = map_option (\<lambda>ob. (o_keys ob, o_values ob)) (obj_at (heap ctx) a)"

definition null_refs :: "pdf_context \<Rightarrow> addr \<Rightarrow> int option" where
  "null_refs ctx n =
     (case obj_at (heap ctx) n of
        None \<Rightarrow> None
      | Some ob \<Rightarrow> if o_type ob = PDF_NULL then Some (refcnt ob) else None)"


text \<open>
  Claim C7, as amended. An array created by \<open>pdfi_array_alloc\<close> with at least one slot
  (and fewer than \<open>2^31\<close>) has in every slot a reference to one and the same fresh null
  object, whose reference count is the number of slots. The object allocator
  \<open>pdfi_alloc_object\<close> itself clears the slots: every value slot of a new array and every
  key and value slot of a new dictionary is the null pointer, for the caller to fill.
\<close>

theorem composite_allocation:
  "(0 < sz \<and> sz < 2 ^ 31 \<longrightarrow>
      (\<exists>a n ctx'. pdfi_array_alloc ctx sz = (Inr a, ctx')
         \<and> slots_of ctx' a = Some ([], replicate sz (Some n))
         \<and> null_refs ctx' n = Some (int sz)))
   \<and> (\<exists>a ctx'. pdfi_alloc_object ctx PDF_ARRAY sz = (Inr a, ctx')
         \<and> slots_of ctx' a = Some ([], replicate sz None))
   \<and> (\<exists>a ctx'. pdfi_alloc_object ctx PDF_DICT sz = (Inr a, ctx')
         \<and> slots_of ctx' a = Some (replicate sz None, replicate sz None))"
proof (intro conjI impI)
  assume sz: "0 < sz \<and> sz < 2 ^ 31"
  let ?a = "length (heap ctx)"
  let ?n = "Suc (length (heap ctx))"
  let ?A = "(zero_obj PDF_ARRAY)\<lparr>o_values := replicate sz None, o_size := sz\<rparr>"
  let ?h = "heap ctx @ [Some ?A, Some (zero_obj PDF_NULL)]"
  have al: "pdfi_array_alloc ctx sz = (Inr ?a, ctx\<lparr>heap := array_fill sz ?a ?n ?h 0\<rparr>)"
    using sz
    by (simp add: pdfi_array_alloc_def pdfi_alloc_object_def Let_def upd_obj_def obj_at_def
        nth_append)
  have "obj_at ?h ?a = Some ?A" "obj_at ?h ?n = Some (zero_obj PDF_NULL)"
    by (simp_all add: obj_at_def nth_append)
  from array_fill_spec [OF _ this, of 0 sz]
  have "obj_at (array_fill sz ?a ?n ?h 0) ?a = Some (?A\<lparr>o_values := replicate sz (Some ?n)\<rparr>)"
    and "obj_at (array_fill sz ?a ?n ?h 0) ?n
      = Some ((zero_obj PDF_NULL)\<lparr>refcnt := refcnt (zero_obj PDF_NULL) + int sz\<rparr>)"
    by simp_all
  then have "slots_of (ctx\<lparr>heap := array_fill sz ?a ?n ?h 0\<rparr>) ?a = Some ([], replicate sz (Some ?n))"
    and "null_refs (ctx\<lparr>heap := array_fill sz ?a ?n ?h 0\<rparr>) ?n = Some (int sz)"
    by (simp_all add: slots_of_def null_refs_def zero_obj_def)
  with al show "\<exists>a n ctx'. pdfi_array_alloc ctx sz = (Inr a, ctx')
         \<and> slots_of ctx' a = Some ([], replicate sz (Some n))
         \<and> null_refs ctx' n = Some (int sz)"
    by blast
next
  show "\<exists>a ctx'. pdfi_alloc_object ctx PDF_ARRAY sz = (Inr a, ctx')
         \<and> slots_of ctx' a = Some ([], replicate sz None)"
    by (simp add: pdfi_alloc_object_def Let_def slots_of_def obj_at_def zero_obj_def)
next
  show "\<exists>a ctx'. pdfi_alloc_object ctx PDF_DICT sz = (Inr a, ctx')
         \<and> slots_of ctx' a = Some (replicate sz None, replicate sz None)"
    by (simp add: pdfi_alloc_object_def Let_def slots_of_def obj_at_def zero_obj_def)
qed

theorem composite_allocation_witness:
  "\<exists>a n ctx'. pdfi_array_alloc empty_context 3 = (Inr a, ctx')
         \<and> slots_of ctx' a = Some ([], [Some n, Some n, Some n])
         \<and> null_refs ctx' n = Some 3"
  using composite_allocation [of 3 empty_context]
  by (simp add: numeral_3_eq_3)


text \<open>
  The claim as stated fails for the object allocator: a dictionary of two entries that
  \<open>pdfi_alloc_object\<close> returns has null pointers in its key and value slots.
\<close>

theorem alloc_dict_null_slots_counterexample:
  "fst (pdfi_alloc_object empty_context PDF_DICT 2) = Inr 0
   \<and> slots_of (snd (pdfi_alloc_object empty_context PDF_DICT 2)) 0
       = Some ([None, None], [None, None])"
  by (simp add: pdfi_alloc_object_def empty_context_def Let_def numeral_2_eq_2 slots_of_def
      obj_at_def zero_obj_def)


section \<open>The rest of the token reader\<close>

subsection \<open>Marks on the stack\<close>

text \<open>
  Modelled from the spec: \<open>pdfi_mark_stack\<close>, \<open>pdfi_count_to_mark\<close>,
  \<open>pdfi_clear_to_mark\<close> and \<open>pdfi_clearstack\<close> are in a file that is not among the
  sources. An opening delimiter pushes a mark; the objects above the topmost mark are
  the span that the closing delimiter collapses; clearing to the mark pops the span and
  the mark; a stack without a mark is an unmatched-mark error.
\<close>

definition stack_obj :: "pdf_context \<Rightarrow> nat \<Rightarrow> pdf_obj option" where
  "stack_obj ctx i =
     (if i < length (stack ctx) then obj_at (heap ctx) (stack ctx ! i) else None)"

definition stack_type :: "pdf_context \<Rightarrow> nat \<Rightarrow> pdf_obj_type option" where
  "stack_type ctx i = map_option o_type (stack_obj ctx i)"

definition is_mark_type :: "pdf_obj_type \<Rightarrow> bool" where
  "is_mark_type t = (t = PDF_ARRAY_MARK \<or> t = PDF_DICT_MARK \<or> t = PDF_PROC_MARK)"

definition pdfi_mark_stack :: "pdf_context \<Rightarrow> pdf_obj_type \<Rightarrow> unit res" where
  "pdfi_mark_stack ctx t =
     (case pdfi_alloc_object ctx t 0 of
        (Inl e, ctx1) \<Rightarrow> (Inl e, ctx1)
      | (Inr a, ctx1) \<Rightarrow> (Inr (), pdfi_push ctx1 a))"

fun to_mark :: "pdf_obj option list \<Rightarrow> addr list \<Rightarrow> nat option" where
  "to_mark h [] = None"
| "to_mark h (a # st) =
     (case obj_at h a of
        Some ob \<Rightarrow> if is_mark_type (o_type ob) then Some 0 else map_option Suc (to_mark h st)
      | None \<Rightarrow> map_option Suc (to_mark h st))"

definition pdfi_count_to_mark :: "pdf_context \<Rightarrow> nat res" where
  "pdfi_count_to_mark ctx =
     (case to_mark (heap ctx) (stack ctx) of
        None \<Rightarrow> (Inl gs_error_unmatchedmark, ctx)
      | Some n \<Rightarrow> (Inr n, ctx))"

definition pdfi_clear_to_mark :: "pdf_context \<Rightarrow> unit res" where
  "pdfi_clear_to_mark ctx =
     (case to_mark (heap ctx) (stack ctx) of
        None \<Rightarrow> (Inl gs_error_unmatchedmark, ctx)
      | Some n \<Rightarrow> (Inr (), pdfi_pop ctx (n + 1)))"

definition pdfi_clearstack :: "pdf_context \<Rightarrow> pdf_context" where
  "pdfi_clearstack ctx = pdfi_pop ctx (length (stack ctx))"

subsection \<open>Arrays and dictionaries from the stack\<close>

text \<open>
  \<open>pdfi_array_from_stack\<close> of the interpreter file: the objects above the mark become
  the slots of a new array, the last one first. \<open>array_collect k a ctx\<close> is its loop with
  \<open>index = k\<close>.
\<close>

fun array_collect :: "nat \<Rightarrow> addr \<Rightarrow> pdf_context \<Rightarrow> pdf_context" where
  "array_collect 0 a ctx = ctx"
| "array_collect (Suc k) a ctx =
     (case stack ctx of
        [] \<Rightarrow> ctx
      | ob # _ \<Rightarrow>
          array_collect k a
            (pdfi_pop
               (ctx\<lparr>heap := pdfi_countup
                   (upd_obj (heap ctx) a (\<lambda>x. x\<lparr>o_values := (o_values x)[k := Some ob]\<rparr>)) ob\<rparr>)
               1))"

definition pdfi_array_from_stack :: "pdf_context \<Rightarrow> unit res" where
  "pdfi_array_from_stack ctx =
     (case pdfi_count_to_mark ctx of
        (Inl e, ctx1) \<Rightarrow> (Inl e, ctx1)
      | (Inr n, ctx1) \<Rightarrow>
          (case pdfi_alloc_object ctx1 PDF_ARRAY n of
             (Inl e, ctx2) \<Rightarrow> (Inl e, ctx2)
           | (Inr a, ctx2) \<Rightarrow>
               let ctx3 = ctx2\<lparr>heap := upd_obj (heap ctx2) a (\<lambda>x. x\<lparr>entries := n\<rparr>)\<rparr>;
                   ctx4 = array_collect n a ctx3
               in (case pdfi_clear_to_mark ctx4 of
                     (Inl e, ctx5) \<Rightarrow> (Inl e, ctx5)
                   | (Inr u, ctx5) \<Rightarrow> (Inr (), pdfi_push ctx5 a))))"

text \<open>
  Modelled from the spec: \<open>pdfi_dict_from_stack\<close> is in a file that is not among the
  sources. The span above the mark is read as alternating keys and values; a span of odd
  length (a key without a value) is a range error, and a key that is not a name is a
  type error. \<open>dict_collect k d ctx\<close> stores the pair of index \<open>k - 1\<close> from the top of
  the stack and goes on with the pairs below it.
\<close>

fun dict_collect :: "nat \<Rightarrow> addr \<Rightarrow> pdf_context \<Rightarrow> unit res" where
  "dict_collect 0 d ctx = (Inr (), ctx)"
| "dict_collect (Suc k) d ctx =
     (case stack ctx of
        v # ky # _ \<Rightarrow>
          if stack_type ctx 1 = Some PDF_NAME then
            dict_collect k d
              (pdfi_pop
                 (ctx\<lparr>heap := pdfi_countup (pdfi_countup
                     (upd_obj (heap ctx) d
                        (\<lambda>x. x\<lparr>o_keys := (o_keys x)[k := Some ky],
                                o_values := (o_values x)[k := Some v]\<rparr>)) ky) v\<rparr>)
                 2)
          else (Inl gs_error_typecheck, ctx\<lparr>heap := pdfi_free_object (heap ctx) d\<rparr>)
      | _ \<Rightarrow> (Inl invalid_memory_access, ctx))"

definition pdfi_dict_from_stack :: "pdf_context \<Rightarrow> unit res" where
  "pdfi_dict_from_stack ctx =
     (case pdfi_count_to_mark ctx of
        (Inl e, ctx1) \<Rightarrow> (Inl e, ctx1)
      | (Inr n, ctx1) \<Rightarrow>
          if odd n then (Inl gs_error_rangecheck, ctx1)
          else
            (case pdfi_alloc_object ctx1 PDF_DICT (n div 2) of
               (Inl e, ctx2) \<Rightarrow> (Inl e, ctx2)
             | (Inr d, ctx2) \<Rightarrow>
                 let ctx3 = ctx2\<lparr>heap := upd_obj (heap ctx2) d (\<lambda>x. x\<lparr>entries := n div 2\<rparr>)\<rparr>
                 in (case dict_collect (n div 2) d ctx3 of
                       (Inl e, ctx4) \<Rightarrow> (Inl e, ctx4)
                     | (Inr u, ctx4) \<Rightarrow>
                         (case pdfi_clear_to_mark ctx4 of
                            (Inl e, ctx5) \<Rightarrow>
                              (Inl e, ctx5\<lparr>heap := pdfi_free_object (heap ctx5) d\<rparr>)
                          | (Inr u, ctx5) \<Rightarrow> (Inr (), pdfi_push ctx5 d)))))"


subsection \<open>End-of-line skipping and comments\<close>

function skip_eol_loop :: "stream_sel \<Rightarrow> pdf_context \<Rightarrow> nat \<Rightarrow> unit res" where
  "skip_eol_loop sel ctx rd =
     (case read_ctx ctx sel of
        (bytes, None, ctx1) \<Rightarrow>
          if bytes < 0 then (Inl gs_error_ioerror, ctx1) else (Inr (), ctx1)
      | (bytes, Some c, ctx1) \<Rightarrow>
          if c = 0x0A \<or> c = 0x0D then skip_eol_loop sel ctx1 ((rd + 1) mod 2 ^ 32)
          else (Inr (), if 0 < (rd + 1) mod (2 ^ 32 :: nat) then unread_ctx ctx1 sel [c] else ctx1))"
  by pat_completeness auto
termination
  by (relation "measure (\<lambda>(sel, ctx, rd). length (remaining (get_stream ctx sel)))")
     (auto dest: read_ctx_Some [OF sym])

declare skip_eol_loop.simps [simp del]

definition skip_eol :: "pdf_context \<Rightarrow> stream_sel \<Rightarrow> unit res" where
  "skip_eol ctx sel = skip_eol_loop sel ctx 0"

text \<open>\<open>pdfi_skip_comment\<close> reads up to and including the next end-of-line byte.\<close>

function pdfi_skip_comment :: "pdf_context \<Rightarrow> stream_sel \<Rightarrow> unit res" where
  "pdfi_skip_comment ctx sel =
     (case read_ctx ctx sel of
        (bytes, None, ctx1) \<Rightarrow>
          if bytes < 0 then (Inl gs_error_ioerror, ctx1) else (Inr (), ctx1)
      | (bytes, Some c, ctx1) \<Rightarrow>
          if c = 0x0A \<or> c = 0x0D then (Inr (), ctx1) else pdfi_skip_comment ctx1 sel)"
  by pat_completeness auto
termination
  by (relation "measure (\<lambda>(ctx, sel). length (remaining (get_stream ctx sel)))")
     (auto dest: read_ctx_Some [OF sym])

declare pdfi_skip_comment.simps [simp del]

subsection \<open>Names and hexadecimal strings\<close>

definition ishex :: "byte \<Rightarrow> bool" where
  "ishex c =
     (if c < 0x30 then False
      else if c > 0x39 then
        (if c > 0x46 then (if c < 0x61 then False else if c > 0x66 then False else True)
         else if c < 0x41 then False else True)
      else True)"

definition fromhex :: "byte \<Rightarrow> byte" where
  "fromhex c = (if c > 0x39 then (if c > 0x46 then c - 0x57 else c - 0x37) else c - 0x30)"

text \<open>
  \<open>pdfi_read_name\<close> uses a growing buffer and an \<open>unsigned short\<close> index like
  \<open>pdfi_read_string\<close>; the model uses the fields \<open>Buffer\<close> and \<open>index\<close> of the same
  record of locals. A \<open>#\<close> is followed by two hex digits, read with one call for two
  bytes.
\<close>

definition name_next ::
  "pdf_context \<times> string_locals \<Rightarrow> (pdf_context \<times> string_locals) loop_ctl" where
  "name_next x =
     (case x of (ctx, st) \<Rightarrow> Continue (ctx, st\<lparr>index := (index st + 1) mod 65536\<rparr>))"

definition read_name_iter ::
  "stream_sel \<Rightarrow> pdf_context \<times> string_locals \<Rightarrow> (pdf_context \<times> string_locals) loop_ctl" where
  "read_name_iter sel x =
     (case x of (ctx, st) \<Rightarrow>
        (case read_ctx ctx sel of
           (bytes, None, ctx1) \<Rightarrow>
             if bytes = 0 \<and> eof (get_stream ctx1 sel) then Break (ctx1, st)
             else Return_error gs_error_ioerror (ctx1, st)
         | (bytes, Some c, ctx1) \<Rightarrow>
             if iswhite c then Break (ctx1, put_char st 0x00)
             else if isdelimiter c then Break (unread_ctx ctx1 sel [c], put_char st 0x00)
             else if c = 0x23 then
               (case read_ctx ctx1 sel of
                  (b1, None, ctx2) \<Rightarrow> Return_error gs_error_ioerror (ctx2, st)
                | (b1, Some n0, ctx2) \<Rightarrow>
                    (case read_ctx ctx2 sel of
                       (b2, None, ctx3) \<Rightarrow> Return_error gs_error_ioerror (ctx3, st)
                     | (b2, Some n1, ctx3) \<Rightarrow>
                         if \<not> ishex n0 \<or> \<not> ishex n1
                         then Return_error gs_error_ioerror (ctx3, st)
                         else name_next
                                (ctx3, put_char st (push_bit 4 (fromhex n0) + fromhex n1))))
             else name_next (ctx1, put_char st c)))"

lemma read_name_iter_measure:
  assumes "read_name_iter sel x = Continue y"
  shows "length (remaining (get_stream (fst y) sel)) < length (remaining (get_stream (fst x) sel))"
proof (cases x)
  case (Pair ctx st)
  obtain n co ctx1 where r: "read_ctx ctx sel = (n, co, ctx1)" by (cases "read_ctx ctx sel") auto
  show ?thesis
  proof (cases co)
    case None
    with assms r Pair show ?thesis by (simp add: read_name_iter_def split: if_splits)
  next
    case (Some b)
    with r have r1: "remaining (get_stream ctx sel) = b # remaining (get_stream ctx1 sel)"
      by (simp add: read_ctx_Some)
    show ?thesis
    proof (cases "b = 0x23")
      case False
      with assms r Pair Some have "fst y = ctx1"
        by (auto simp: read_name_iter_def name_next_def split: if_splits)
      with r1 Pair show ?thesis by simp
    next
      case True
      obtain n1 co1 ctx2 where r2: "read_ctx ctx1 sel = (n1, co1, ctx2)"
        by (cases "read_ctx ctx1 sel") auto
      obtain n2 co2 ctx3 where r3: "read_ctx ctx2 sel = (n2, co2, ctx3)"
        by (cases "read_ctx ctx2 sel") auto
      from assms r Pair Some True r2 r3 obtain c1 c2 where
        "co1 = Some c1" "co2 = Some c2" "fst y = ctx3"
        by (auto simp: read_name_iter_def name_next_def iswhite_def isdelimiter_def
            split: if_splits option.splits)
      with r2 r3 read_ctx_Some [of ctx1 sel n1 c1 ctx2] read_ctx_Some [of ctx2 sel n2 c2 ctx3]
      have "length (remaining (get_stream ctx3 sel)) < length (remaining (get_stream ctx1 sel))"
        by simp
      with r1 Pair \<open>fst y = ctx3\<close> show ?thesis by simp
    qed
  qed
qed

function read_name_loop ::
  "stream_sel \<Rightarrow> pdf_context \<times> string_locals
     \<Rightarrow> gs_error option \<times> pdf_context \<times> string_locals" where
  "read_name_loop sel x =
     (case read_name_iter sel x of
        Continue y \<Rightarrow> read_name_loop sel y
      | Break y \<Rightarrow> (None, y)
      | Return_error e y \<Rightarrow> (Some e, y))"
  by pat_completeness auto
termination
  by (relation "measure (\<lambda>(sel, x). length (remaining (get_stream (fst x) sel)))")
     (auto dest: read_name_iter_measure)

declare read_name_loop.simps [simp del]

definition pdfi_read_name :: "pdf_context \<Rightarrow> stream_sel \<Rightarrow> unit res" where
  "pdfi_read_name ctx sel =
     (case read_name_loop sel (ctx, init_string_locals) of
        (Some e, ctx1, st) \<Rightarrow> (Inl e, ctx1)
      | (None, ctx1, st) \<Rightarrow> string_build ctx1 PDF_NAME st)"

text \<open>
  \<open>pdfi_read_hexstring\<close>: each of the two hex digits of a byte is the next byte that is
  not white space. \<open>read_nonwhite\<close> is the inner loop; it gives no byte at the end of the
  data.
\<close>

function read_nonwhite :: "stream_sel \<Rightarrow> pdf_context \<Rightarrow> byte option \<times> pdf_context" where
  "read_nonwhite sel ctx =
     (case read_ctx ctx sel of
        (bytes, None, ctx1) \<Rightarrow> (None, ctx1)
      | (bytes, Some c, ctx1) \<Rightarrow> if iswhite c then read_nonwhite sel ctx1 else (Some c, ctx1))"
  by pat_completeness auto
termination
  by (relation "measure (\<lambda>(sel, ctx). length (remaining (get_stream ctx sel)))")
     (auto dest: read_ctx_Some [OF sym])

declare read_nonwhite.simps [simp del]

definition read_hex_iter ::
  "stream_sel \<Rightarrow> pdf_context \<times> string_locals \<Rightarrow> (pdf_context \<times> string_locals) loop_ctl" where
  "read_hex_iter sel x =
     (case x of (ctx, st) \<Rightarrow>
        (case read_nonwhite sel ctx of
           (None, ctx1) \<Rightarrow> Break (ctx1, st)
         | (Some h0, ctx1) \<Rightarrow>
             if h0 = 0x3E then Break (ctx1, st)
             else
               (case read_nonwhite sel ctx1 of
                  (None, ctx2) \<Rightarrow> Break (ctx2, st)
                | (Some h1, ctx2) \<Rightarrow>
                    if \<not> ishex h0 \<or> \<not> ishex h1
                    then Return_error gs_error_syntaxerror (ctx2, st)
                    else name_next
                           (ctx2, put_char st (push_bit 4 (fromhex h0) + fromhex h1)))))"

lemma read_nonwhite_measure:
  "read_nonwhite sel ctx = (Some c, ctx1) \<Longrightarrow>
     length (remaining (get_stream ctx1 sel)) < length (remaining (get_stream ctx sel))"
proof (induction sel ctx rule: read_nonwhite.induct)
  case (1 sel ctx)
  obtain n co c1 where r: "read_ctx ctx sel = (n, co, c1)" by (cases "read_ctx ctx sel") auto
  show ?case
  proof (cases co)
    case None
    with "1.prems" r show ?thesis by (subst (asm) read_nonwhite.simps) simp
  next
    case (Some b)
    with r have r1: "remaining (get_stream ctx sel) = b # remaining (get_stream c1 sel)"
      by (simp add: read_ctx_Some)
    show ?thesis
    proof (cases "iswhite b")
      case True
      with "1.prems" r Some have "read_nonwhite sel c1 = (Some c, ctx1)"
        by (subst (asm) read_nonwhite.simps) simp
      with "1.IH" [OF r [symmetric] refl Some True] r1 show ?thesis by simp
    next
      case False
      with "1.prems" r Some have "ctx1 = c1"
        by (subst (asm) read_nonwhite.simps) simp
      with r1 show ?thesis by simp
    qed
  qed
qed

lemma read_hex_iter_measure:
  assumes "read_hex_iter sel x = Continue y"
  shows "length (remaining (get_stream (fst y) sel)) < length (remaining (get_stream (fst x) sel))"
proof (cases x)
  case (Pair ctx st)
  obtain o1 c1 where r1: "read_nonwhite sel ctx = (o1, c1)" by (cases "read_nonwhite sel ctx") auto
  obtain o2 c2 where r2: "read_nonwhite sel c1 = (o2, c2)" by (cases "read_nonwhite sel c1") auto
  from assms Pair r1 r2 obtain h0 h1 where "o1 = Some h0" "o2 = Some h1" "fst y = c2"
    by (auto simp: read_hex_iter_def name_next_def split: option.splits if_splits)
  with r1 r2 read_nonwhite_measure [of sel ctx h0 c1] read_nonwhite_measure [of sel c1 h1 c2]
  show ?thesis using Pair by simp
qed

function read_hex_loop ::
  "stream_sel \<Rightarrow> pdf_context \<times> string_locals
     \<Rightarrow> gs_error option \<times> pdf_context \<times> string_locals" where
  "read_hex_loop sel x =
     (case read_hex_iter sel x of
        Continue y \<Rightarrow> read_hex_loop sel y
      | Break y \<Rightarrow> (None, y)
      | Return_error e y \<Rightarrow> (Some e, y))"
  by pat_completeness auto
termination
  by (relation "measure (\<lambda>(sel, x). length (remaining (get_stream (fst x) sel)))")
     (auto dest: read_hex_iter_measure)

declare read_hex_loop.simps [simp del]

definition pdfi_read_hexstring :: "pdf_context \<Rightarrow> stream_sel \<Rightarrow> unit res" where
  "pdfi_read_hexstring ctx sel =
     (case read_hex_loop sel (ctx, init_string_locals) of
        (Some e, ctx1, st) \<Rightarrow> (Inl e, ctx1)
      | (None, ctx1, st) \<Rightarrow> string_build ctx1 PDF_STRING st)"


subsection \<open>Keywords: \<open>pdfi_read_keyword\<close>\<close>

definition ascii :: "string \<Rightarrow> byte list" where
  "ascii s = map (\<lambda>c. of_nat (of_char c)) s"

text \<open>
  The loop of \<open>pdfi_read_keyword\<close> stores bytes up to white space, a delimiter (pushed
  back), the end of the data or 255 bytes.
\<close>

definition read_keyword_iter ::
  "stream_sel \<Rightarrow> pdf_context \<times> num_locals \<Rightarrow> (pdf_context \<times> num_locals) loop_ctl" where
  "read_keyword_iter sel x =
     (case x of (ctx, st) \<Rightarrow>
        (case read_ctx ctx sel of
           (bytes, None, ctx1) \<Rightarrow>
             if bytes < 0 then Return_error gs_error_ioerror (ctx1, st) else Break (ctx1, st)
         | (bytes, Some c, ctx1) \<Rightarrow>
             if iswhite c then Break (ctx1, num_put st c)
             else if isdelimiter c then Break (unread_ctx ctx1 sel [c], num_put st c)
             else if num_index st + 1 < 255
               then Continue (ctx1, (num_put st c)\<lparr>num_index := num_index st + 1\<rparr>)
             else Break (ctx1, (num_put st c)\<lparr>num_index := num_index st + 1\<rparr>)))"

lemma read_keyword_iter_measure:
  assumes "read_keyword_iter sel x = Continue y"
  shows "length (remaining (get_stream (fst y) sel)) < length (remaining (get_stream (fst x) sel))"
proof (cases x)
  case (Pair ctx st)
  obtain n co ctx1 where r: "read_ctx ctx sel = (n, co, ctx1)" by (cases "read_ctx ctx sel") auto
  show ?thesis
  proof (cases co)
    case None
    with assms r Pair show ?thesis by (simp add: read_keyword_iter_def split: if_splits)
  next
    case (Some b)
    with r have "remaining (get_stream ctx sel) = b # remaining (get_stream ctx1 sel)"
      by (simp add: read_ctx_Some)
    moreover from assms r Pair Some have "fst y = ctx1"
      by (auto simp: read_keyword_iter_def split: if_splits)
    ultimately show ?thesis using Pair by simp
  qed
qed

function read_keyword_loop ::
  "stream_sel \<Rightarrow> pdf_context \<times> num_locals \<Rightarrow> gs_error option \<times> pdf_context \<times> num_locals" where
  "read_keyword_loop sel x =
     (case read_keyword_iter sel x of
        Continue y \<Rightarrow> read_keyword_loop sel y
      | Break y \<Rightarrow> (None, y)
      | Return_error e y \<Rightarrow> (Some e, y))"
  by pat_completeness auto
termination
  by (relation "measure (\<lambda>(sel, x). length (remaining (get_stream (fst x) sel)))")
     (auto dest: read_keyword_iter_measure)

declare read_keyword_loop.simps [simp del]

text \<open>
  The keyword \<open>R\<close>: the keyword object is released, and the two integers on top of the
  stack (the generation number above the object number) are replaced by an indirect
  reference. The generation number is stored in a \<open>uint32_t\<close> and the object number in
  a \<open>uint64_t\<close>.
\<close>

definition keyword_R :: "pdf_context \<Rightarrow> addr \<Rightarrow> unit res" where
  "keyword_R ctx k =
     (let ctx1 = ctx\<lparr>heap := pdfi_countdown (heap ctx) k\<rparr> in
      if length (stack ctx1) < 2
        then (Inl gs_error_stackunderflow, ctx1\<lparr>heap := pdfi_countdown (heap ctx1) k\<rparr>)
      else
        (case (stack_obj ctx1 0, stack_obj ctx1 1) of
           (Some g, Some n) \<Rightarrow>
             if o_type g \<noteq> PDF_INT \<or> o_type n \<noteq> PDF_INT
               then (Inl gs_error_typecheck, ctx1\<lparr>heap := pdfi_countdown (heap ctx1) k\<rparr>)
             else
               (case pdfi_alloc_object (pdfi_pop ctx1 2) PDF_INDIRECT 0 of
                  (Inl e, ctx2) \<Rightarrow> (Inl e, ctx2\<lparr>heap := pdfi_countdown (heap ctx2) k\<rparr>)
                | (Inr r, ctx2) \<Rightarrow>
                    (Inr (), pdfi_push
                       (ctx2\<lparr>heap := upd_obj (heap ctx2) r
                          (\<lambda>x. x\<lparr>ref_generation_num := nat (num_i g mod 2 ^ 32),
                                  ref_object_num := nat (num_i n mod 2 ^ 64)\<rparr>)\<rparr>) r))
         | _ \<Rightarrow> (Inl invalid_memory_access, ctx1)))"

text \<open>The literals \<open>true\<close>, \<open>false\<close> and \<open>null\<close> become objects of their own.\<close>

definition keyword_literal :: "pdf_context \<Rightarrow> addr \<Rightarrow> pdf_obj_type \<Rightarrow> bool \<Rightarrow> unit res" where
  "keyword_literal ctx k t v =
     (case pdfi_alloc_object (ctx\<lparr>heap := pdfi_countdown (heap ctx) k\<rparr>) t 0 of
        (Inl e, ctx1) \<Rightarrow> (Inl e, ctx1)
      | (Inr a, ctx1) \<Rightarrow>
          (Inr (), pdfi_push
             (ctx1\<lparr>heap := upd_obj (heap ctx1) a (\<lambda>x. x\<lparr>bool_v := v\<rparr>)\<rparr>) a))"

definition keyword_push :: "pdf_context \<Rightarrow> addr \<Rightarrow> pdf_key \<Rightarrow> unit res" where
  "keyword_push ctx k ky =
     (let ctx1 = pdfi_push (ctx\<lparr>heap := upd_obj (heap ctx) k (\<lambda>x. x\<lparr>o_key := ky\<rparr>)\<rparr>) k
      in (Inr (), ctx1\<lparr>heap := pdfi_countdown (heap ctx1) k\<rparr>))"

definition keyword_dispatch :: "pdf_context \<Rightarrow> stream_sel \<Rightarrow> addr \<Rightarrow> byte list \<Rightarrow> unit res" where
  "keyword_dispatch ctx3 sel k kw =
     (if kw = ascii ''KEYWORD_TOO_LONG'' then keyword_push ctx3 k PDF_INVALID_KEY
      else if kw = ascii ''R'' then keyword_R ctx3 k
      else if kw = ascii ''endstream'' then keyword_push ctx3 k PDF_ENDSTREAM
      else if kw = ascii ''endobj'' then keyword_push ctx3 k PDF_ENDOBJ
      else if kw = ascii ''obj'' then keyword_push ctx3 k PDF_OBJ
      else if kw = ascii ''stream'' then
        (case skip_eol (ctx3\<lparr>heap := upd_obj (heap ctx3) k
                          (\<lambda>x. x\<lparr>o_key := PDF_STREAM\<rparr>)\<rparr>) sel of
           (Inl e, ctx4) \<Rightarrow> (Inl e, ctx4\<lparr>heap := pdfi_countdown (heap ctx4) k\<rparr>)
         | (Inr u, ctx4) \<Rightarrow> keyword_push ctx4 k PDF_STREAM)
      else if kw = ascii ''startxref'' then keyword_push ctx3 k PDF_STARTXREF
      else if kw = ascii ''true'' then keyword_literal ctx3 k PDF_BOOL True
      else if kw = ascii ''trailer'' then keyword_push ctx3 k PDF_TRAILER
      else if kw = ascii ''false'' then keyword_literal ctx3 k PDF_BOOL False
      else if kw = ascii ''null'' then keyword_literal ctx3 k PDF_NULL False
      else if kw = ascii ''xref'' then keyword_push ctx3 k PDF_XREF
      else keyword_push ctx3 k PDF_NOKEY)"

definition keyword_build :: "pdf_context \<Rightarrow> stream_sel \<Rightarrow> num_locals \<Rightarrow> unit res" where
  "keyword_build ctx1 sel st =
     (if (num_index st \<ge> 255 \<or> num_index st = 0) \<and> pdfstoponerror ctx1
        then (Inl gs_error_syntaxerror, ctx1)
      else
        let kw = (if num_index st \<ge> 255 \<or> num_index st = 0 then ascii ''KEYWORD_TOO_LONG''
                  else take (num_index st) (num_Buffer st))
        in (case pdfi_alloc_object ctx1 PDF_KEYWORD (length kw) of
              (Inl e, ctx2) \<Rightarrow> (Inl e, ctx2)
            | (Inr k, ctx2) \<Rightarrow>
                keyword_dispatch
                  (ctx2\<lparr>heap := pdfi_countup
                      (upd_obj (heap ctx2) k (\<lambda>x. x\<lparr>o_data := kw\<rparr>)) k\<rparr>) sel k kw))"

definition pdfi_read_keyword :: "pdf_context \<Rightarrow> stream_sel \<Rightarrow> unit res" where
  "pdfi_read_keyword ctx sel =
     (case read_keyword_loop sel (snd (skip_white ctx sel), init_num_locals) of
        (Some e, ctx1, st) \<Rightarrow> (Inl e, ctx1)
      | (None, ctx1, st) \<Rightarrow> keyword_build ctx1 sel st)"

subsection \<open>One token: \<open>pdfi_read_token\<close>\<close>

text \<open>
  \<open>pdfi_read_token\<close> calls itself after a closing bracket that it could not match, after
  a closing brace, after a comment and after a stray closing parenthesis. One pass of
  it either is done with a result or goes on from a later position of the stream.
\<close>

datatype 'a retry = Retry pdf_context | Finished 'a

definition token_less :: "pdf_context \<Rightarrow> stream_sel \<Rightarrow> byte \<Rightarrow> unit res" where
  "token_less ctx sel b1 =
     (if b1 = 0x3C then pdfi_mark_stack ctx PDF_DICT_MARK
      else if b1 = 0x3E then pdfi_read_hexstring (unread_ctx ctx sel [b1]) sel
      else if ishex b1 then pdfi_read_hexstring (unread_ctx ctx sel [b1]) sel
      else (Inl gs_error_syntaxerror, ctx))"

definition token_char :: "pdf_context \<Rightarrow> stream_sel \<Rightarrow> byte \<Rightarrow> (unit res) retry" where
  "token_char ctx1 sel c =
     (if is_digit c \<or> c = 0x2B \<or> c = 0x2D \<or> c = 0x2E
        then Finished (pdfi_read_num (unread_ctx ctx1 sel [c]) sel)
      else if c = 0x2F then Finished (pdfi_read_name ctx1 sel)
      else if c = 0x3C then
        Finished
          (case read_ctx ctx1 sel of
             (b, None, ctx2) \<Rightarrow> (Inl gs_error_ioerror, ctx2)
           | (b, Some b1, ctx2) \<Rightarrow>
               if iswhite b1 then
                 (case skip_white ctx2 sel of
                    (Inl e, ctx3) \<Rightarrow> (Inl e, ctx3)
                  | (Inr u, ctx3) \<Rightarrow>
                      (case read_ctx ctx3 sel of
                         (b', None, ctx4) \<Rightarrow> token_less ctx4 sel b1
                       | (b', Some b2, ctx4) \<Rightarrow> token_less ctx4 sel b2))
               else token_less ctx2 sel b1)
      else if c = 0x3E then
        Finished
          (case read_ctx ctx1 sel of
             (b, None, ctx2) \<Rightarrow> (Inl gs_error_ioerror, ctx2)
           | (b, Some b1, ctx2) \<Rightarrow>
               if b1 = 0x3E then pdfi_dict_from_stack ctx2
               else (Inl gs_error_syntaxerror, ctx2))
      else if c = 0x28 then Finished (pdfi_read_string ctx1 sel)
      else if c = 0x5B then Finished (pdfi_mark_stack ctx1 PDF_ARRAY_MARK)
      else if c = 0x5D then
        (case pdfi_array_from_stack ctx1 of
           (Inl e, ctx2) \<Rightarrow>
             if e = gs_error_VMerror \<or> e = gs_error_ioerror \<or> pdfstoponerror ctx2
             then Finished (Inl e, ctx2)
             else Retry (pdfi_clearstack ctx2)
         | (Inr u, ctx2) \<Rightarrow> Finished (Inr (), ctx2))
      else if c = 0x7B then Finished (pdfi_mark_stack ctx1 PDF_PROC_MARK)
      else if c = 0x7D then Retry (snd (pdfi_clear_to_mark ctx1))
      else if c = 0x25 then Retry (snd (pdfi_skip_comment ctx1 sel))
      else if isdelimiter c then
        (if pdfstoponerror ctx1 then Finished (Inl gs_error_syntaxerror, ctx1)
         else Retry ctx1)
      else Finished (pdfi_read_keyword (unread_ctx ctx1 sel [c]) sel))"

definition token_pass :: "pdf_context \<Rightarrow> stream_sel \<Rightarrow> (unit res) retry" where
  "token_pass ctx sel =
     (case read_ctx (snd (skip_white ctx sel)) sel of
        (bytes, None, ctx1) \<Rightarrow>
          if bytes < 0 then Finished (Inl gs_error_ioerror, ctx1) else Finished (Inr (), ctx1)
      | (bytes, Some c, ctx1) \<Rightarrow> token_char ctx1 sel c)"



text \<open>
  The recursion of \<open>pdfi_read_token\<close> ends because every pass reads at least one byte
  before it calls itself, and what it calls in between (the stack functions, the comment
  skipper) does not push bytes back. \<open>streams\<close> is what the functions that work on the
  heap and the stack leave alone.
\<close>

definition streams :: "pdf_context \<Rightarrow> pdf_stream \<times> pdf_stream" where
  "streams ctx = (main_stream ctx, sub_stream ctx)"

lemma get_stream_streams: "streams c' = streams c \<Longrightarrow> get_stream c' sel = get_stream c sel"
  by (cases sel) (simp_all add: streams_def get_stream_def)

lemma streams_upd [simp]:
  "streams (ctx\<lparr>heap := h\<rparr>) = streams ctx"
  "streams (ctx\<lparr>stack := st\<rparr>) = streams ctx"
  "streams (ctx\<lparr>pdf_errors := e\<rparr>) = streams ctx"
  "streams (ctx\<lparr>xref_table := x\<rparr>) = streams ctx"
  "streams (ctx\<lparr>cache_nodes := cn\<rparr>) = streams ctx"
  "streams (ctx\<lparr>cache_LRU := l\<rparr>) = streams ctx"
  "streams (ctx\<lparr>cache_MRU := m\<rparr>) = streams ctx"
  "streams (ctx\<lparr>cache_entries := n\<rparr>) = streams ctx"
  "streams (ctx\<lparr>loop_detection := ld\<rparr>) = streams ctx"
  by (simp_all add: streams_def)

lemma streams_push [simp]: "streams (pdfi_push ctx a) = streams ctx"
  by (simp add: pdfi_push_def)

lemma streams_pop [simp]: "streams (pdfi_pop ctx n) = streams ctx"
  by (induction ctx n rule: pdfi_pop.induct) (auto split: list.splits)

lemma streams_alloc [simp]: "streams (snd (pdfi_alloc_object ctx t n)) = streams ctx"
  by (simp add: pdfi_alloc_object_def Let_def)

lemma streams_clearstack [simp]: "streams (pdfi_clearstack ctx) = streams ctx"
  by (simp add: pdfi_clearstack_def)

lemma streams_clear_to_mark [simp]: "streams (snd (pdfi_clear_to_mark ctx)) = streams ctx"
  by (simp add: pdfi_clear_to_mark_def split: option.splits del: pdfi_pop.simps)

lemma streams_count_to_mark [simp]: "streams (snd (pdfi_count_to_mark ctx)) = streams ctx"
  by (simp add: pdfi_count_to_mark_def split: option.splits)

lemma streams_array_collect [simp]: "streams (array_collect k a ctx) = streams ctx"
  by (induction k a ctx rule: array_collect.induct) (auto split: list.splits)

lemma streams_array_from_stack [simp]: "streams (snd (pdfi_array_from_stack ctx)) = streams ctx"
proof -
  obtain r1 c1 where 1: "pdfi_count_to_mark ctx = (r1, c1)" by (cases "pdfi_count_to_mark ctx") auto
  then have s1: "streams c1 = streams ctx" using streams_count_to_mark [of ctx] by simp
  show ?thesis
  proof (cases r1)
    case (Inl e)
    with 1 s1 show ?thesis by (simp add: pdfi_array_from_stack_def)
  next
    case (Inr n)
    obtain r2 c2 where 2: "pdfi_alloc_object c1 PDF_ARRAY n = (r2, c2)"
      by (cases "pdfi_alloc_object c1 PDF_ARRAY n") auto
    then have s2: "streams c2 = streams ctx" using streams_alloc [of c1 PDF_ARRAY n] s1 by simp
    show ?thesis
    proof (cases r2)
      case (Inl e)
      with 1 2 Inr s2 show ?thesis by (simp add: pdfi_array_from_stack_def)
    next
      case (Inr a)
      let ?c4 = "array_collect n a (c2\<lparr>heap := upd_obj (heap c2) a (\<lambda>x. x\<lparr>entries := n\<rparr>)\<rparr>)"
      have s4: "streams ?c4 = streams ctx" using s2 by simp
      obtain r5 c5 where 5: "pdfi_clear_to_mark ?c4 = (r5, c5)"
        by (cases "pdfi_clear_to_mark ?c4") auto
      then have "streams c5 = streams ctx" using streams_clear_to_mark [of ?c4] s4 by simp
      with 1 2 5 \<open>r1 = Inr n\<close> Inr show ?thesis
        by (cases r5) (simp_all add: pdfi_array_from_stack_def Let_def)
    qed
  qed
qed

lemma remaining_skip_white_loop:
  "length (remaining (get_stream (snd (skip_white_loop sel ctx rd)) sel))
     \<le> length (remaining (get_stream ctx sel))"
proof (induction sel ctx rd rule: skip_white_loop.induct)
  case (1 sel ctx rd)
  obtain n co c1 where r: "read_ctx ctx sel = (n, co, c1)" by (cases "read_ctx ctx sel") auto
  show ?case
  proof (cases co)
    case None
    from r None have "remaining (get_stream c1 sel) = remaining (get_stream ctx sel)"
      by (cases sel)
         (auto simp: read_ctx_def pdfi_read_byte_def remaining_def get_stream_def set_stream_def
          split: list.splits if_splits)
    with r None show ?thesis by (subst skip_white_loop.simps) simp
  next
    case (Some b)
    with r have r1: "remaining (get_stream ctx sel) = b # remaining (get_stream c1 sel)"
      by (simp add: read_ctx_Some)
    show ?thesis
    proof (cases "iswhite b")
      case True
      with "1.IH" [OF r [symmetric] refl Some True] r r1 Some show ?thesis
        by (subst skip_white_loop.simps) simp
    next
      case False
      with r r1 Some show ?thesis by (subst skip_white_loop.simps) simp
    qed
  qed
qed

lemma remaining_skip_white:
  "length (remaining (get_stream (snd (skip_white ctx sel)) sel))
     \<le> length (remaining (get_stream ctx sel))"
  by (simp add: skip_white_def remaining_skip_white_loop)

lemma read_ctx_None_remaining:
  "read_ctx ctx sel = (n, None, c1) \<Longrightarrow>
     remaining (get_stream c1 sel) = remaining (get_stream ctx sel)"
  by (cases sel)
     (auto simp: read_ctx_def pdfi_read_byte_def remaining_def get_stream_def set_stream_def
      split: list.splits if_splits)

lemma remaining_skip_comment:
  "length (remaining (get_stream (snd (pdfi_skip_comment ctx sel)) sel))
     \<le> length (remaining (get_stream ctx sel))"
proof (induction ctx sel rule: pdfi_skip_comment.induct)
  case (1 ctx sel)
  obtain n co c1 where r: "read_ctx ctx sel = (n, co, c1)" by (cases "read_ctx ctx sel") auto
  show ?case
  proof (cases co)
    case None
    with r read_ctx_None_remaining [of ctx sel n c1] show ?thesis
      by (subst pdfi_skip_comment.simps) simp
  next
    case (Some b)
    with r have r1: "remaining (get_stream ctx sel) = b # remaining (get_stream c1 sel)"
      by (simp add: read_ctx_Some)
    show ?thesis
    proof (cases "b = 0x0A \<or> b = 0x0D")
      case True
      with r r1 Some show ?thesis by (subst pdfi_skip_comment.simps) auto
    next
      case False
      with "1.IH" [OF r [symmetric] refl Some False] r r1 Some show ?thesis
        by (subst pdfi_skip_comment.simps) simp
    qed
  qed
qed




lemma token_char_brace: "token_char c1 sel 0x7D = Retry (snd (pdfi_clear_to_mark c1))"
  by (simp add: token_char_def is_digit_def)

lemma token_char_comment: "token_char c1 sel 0x25 = Retry (snd (pdfi_skip_comment c1 sel))"
  by (simp add: token_char_def is_digit_def)

lemma token_char_bracket:
  "token_char c1 sel 0x5D =
     (case pdfi_array_from_stack c1 of
           (Inl e, ctx2) \<Rightarrow>
             if e = gs_error_VMerror \<or> e = gs_error_ioerror \<or> pdfstoponerror ctx2
             then Finished (Inl e, ctx2)
             else Retry (pdfi_clearstack ctx2)
         | (Inr u, ctx2) \<Rightarrow> Finished (Inr (), ctx2))"
  by (simp add: token_char_def is_digit_def)

lemma token_char_other:
  assumes "token_char c1 sel c = Retry ctx'" "c \<noteq> 0x5D" "c \<noteq> 0x7D" "c \<noteq> 0x25"
  shows "ctx' = c1"
proof -
  have "token_char c1 sel c = Retry c1 \<or> (\<exists>r. token_char c1 sel c = Finished r)"
    using assms(2-4) unfolding token_char_def by simp
  with assms(1) show ?thesis by auto
qed


lemma token_char_Retry:
  assumes "token_char c1 sel c = Retry ctx'"
  shows "length (remaining (get_stream ctx' sel)) \<le> length (remaining (get_stream c1 sel))"
proof -
  consider (arr) "c = 0x5D" | (brace) "c = 0x7D" | (comment) "c = 0x25"
    | (other) "c \<noteq> 0x5D" "c \<noteq> 0x7D" "c \<noteq> 0x25"
    by blast
  then show ?thesis
  proof cases
    case arr
    obtain r2 c2 where a: "pdfi_array_from_stack c1 = (r2, c2)"
      by (cases "pdfi_array_from_stack c1") auto
    have "streams c2 = streams c1" using streams_array_from_stack [of c1] a by simp
    moreover from assms have "token_char c1 sel 0x5D = Retry ctx'" unfolding arr .
    then have "ctx' = pdfi_clearstack c2"
      unfolding token_char_bracket a by (cases r2) (simp_all split: if_splits)
    ultimately have "streams ctx' = streams c1" by simp
    then have "get_stream ctx' sel = get_stream c1 sel" by (rule get_stream_streams)
    then show ?thesis by simp
  next
    case brace
    from assms have "token_char c1 sel 0x7D = Retry ctx'" unfolding brace .
    then have "ctx' = snd (pdfi_clear_to_mark c1)" by (simp add: token_char_brace)
    then have "streams ctx' = streams c1" by simp
    then have "get_stream ctx' sel = get_stream c1 sel" by (rule get_stream_streams)
    then show ?thesis by simp
  next
    case comment
    from assms have "token_char c1 sel 0x25 = Retry ctx'" unfolding comment .
    then have "ctx' = snd (pdfi_skip_comment c1 sel)" by (simp add: token_char_comment)
    then show ?thesis by (simp add: remaining_skip_comment)
  next
    case other
    with assms have "ctx' = c1" by (intro token_char_other)
    then show ?thesis by simp
  qed
qed

lemma token_pass_measure:
  assumes "token_pass ctx sel = Retry ctx'"
  shows "length (remaining (get_stream ctx' sel)) < length (remaining (get_stream ctx sel))"
proof -
  let ?c0 = "snd (skip_white ctx sel)"
  obtain n co c1 where r: "read_ctx ?c0 sel = (n, co, c1)" by (cases "read_ctx ?c0 sel") auto
  from assms r obtain c where co: "co = Some c"
    by (cases co) (auto simp: token_pass_def split: if_splits)
  with r have "remaining (get_stream ?c0 sel) = c # remaining (get_stream c1 sel)"
    by (simp add: read_ctx_Some)
  with remaining_skip_white [of ctx sel]
  have lt: "length (remaining (get_stream c1 sel)) < length (remaining (get_stream ctx sel))"
    by simp
  from assms r co have "token_char c1 sel c = Retry ctx'" by (simp add: token_pass_def)
  from token_char_Retry [OF this] lt show ?thesis by simp
qed

function pdfi_read_token :: "pdf_context \<Rightarrow> stream_sel \<Rightarrow> unit res" where
  "pdfi_read_token ctx sel =
     (case token_pass ctx sel of
        Retry ctx' \<Rightarrow> pdfi_read_token ctx' sel
      | Finished r \<Rightarrow> r)"
  by pat_completeness auto
termination
  by (relation "measure (\<lambda>(ctx, sel). length (remaining (get_stream ctx sel)))")
     (auto dest: token_pass_measure)

declare pdfi_read_token.simps [simp del]



subsection \<open>Progress of the token reader\<close>


text \<open>
  Progress of the token reader: a call of \<open>pdfi_read_token\<close> either finds the end of
  the data (and sets the end-of-file flag) or leaves fewer bytes to read than it found.
\<close>

definition rest_len :: "pdf_context \<Rightarrow> stream_sel \<Rightarrow> nat" where
  "rest_len ctx sel = length (remaining (get_stream ctx sel))"

lemma rest_len_streams: "streams c' = streams c \<Longrightarrow> rest_len c' sel = rest_len c sel"
  unfolding rest_len_def by (drule get_stream_streams [of c' c sel]) simp

lemma rest_len_read_Some: "read_ctx ctx sel = (n, Some c, c1) \<Longrightarrow> rest_len ctx sel = Suc (rest_len c1 sel)"
  by (simp add: rest_len_def read_ctx_Some)

lemma rest_len_read_None:
  "read_ctx ctx sel = (n, None, c1) \<Longrightarrow> rest_len c1 sel = rest_len ctx sel \<and> eof (get_stream c1 sel)"
  by (cases sel)
     (auto simp: rest_len_def read_ctx_def pdfi_read_byte_def remaining_def get_stream_def
        set_stream_def split: list.splits if_splits)

lemma rest_len_unread [simp]: "rest_len (unread_ctx ctx sel bs) sel = length bs + rest_len ctx sel"
  by (simp add: rest_len_def)

lemma rest_len_skip_white: "rest_len (snd (skip_white ctx sel)) sel \<le> rest_len ctx sel"
  by (simp add: rest_len_def remaining_skip_white)

lemma rest_len_skip_comment: "rest_len (snd (pdfi_skip_comment ctx sel)) sel \<le> rest_len ctx sel"
  by (simp add: rest_len_def remaining_skip_comment)

lemma rest_len_skip_eol_loop: "rest_len (snd (skip_eol_loop sel ctx rd)) sel \<le> rest_len ctx sel"
proof (induction sel ctx rd rule: skip_eol_loop.induct)
  case (1 sel ctx rd)
  obtain n co c1 where r: "read_ctx ctx sel = (n, co, c1)" by (cases "read_ctx ctx sel") auto
  show ?case
  proof (cases co)
    case None
    with r rest_len_read_None [of ctx sel n c1] show ?thesis
      by (subst skip_eol_loop.simps) simp
  next
    case (Some b)
    with r have r1: "rest_len ctx sel = Suc (rest_len c1 sel)" by (simp add: rest_len_read_Some)
    show ?thesis
    proof (cases "b = 0x0A \<or> b = 0x0D")
      case True
      with "1.IH" [OF r [symmetric] refl Some True] r r1 Some show ?thesis
        by (subst skip_eol_loop.simps) auto
    next
      case False
      with r r1 Some show ?thesis by (subst skip_eol_loop.simps) simp
    qed
  qed
qed

lemma rest_len_skip_eol: "rest_len (snd (skip_eol ctx sel)) sel \<le> rest_len ctx sel"
  by (simp add: skip_eol_def rest_len_skip_eol_loop)

lemma rest_len_upd [simp]:
  "rest_len (ctx\<lparr>heap := h\<rparr>) sel = rest_len ctx sel"
  "rest_len (ctx\<lparr>stack := st\<rparr>) sel = rest_len ctx sel"
  "rest_len (ctx\<lparr>pdf_errors := e\<rparr>) sel = rest_len ctx sel"
  by (rule rest_len_streams, simp)+

lemma rest_len_push [simp]: "rest_len (pdfi_push ctx a) sel = rest_len ctx sel"
  by (rule rest_len_streams) simp

lemma rest_len_pop [simp]: "rest_len (pdfi_pop ctx n) sel = rest_len ctx sel"
  by (rule rest_len_streams) simp

lemma rest_len_alloc [simp]: "rest_len (snd (pdfi_alloc_object ctx t n)) sel = rest_len ctx sel"
  by (rule rest_len_streams) simp

lemma alloc_cases:
  obtains e where "pdfi_alloc_object ctx t n = (Inl e, ctx)"
  | a c2 where "pdfi_alloc_object ctx t n = (Inr a, c2)" "streams c2 = streams ctx"
  by (cases "t = PDF_OTHER_TYPE") (auto simp: pdfi_alloc_object_def Let_def streams_def)

text \<open>The loops of the readers never leave more bytes than they found.\<close>

lemma read_num_iter_rest:
  "read_num_iter sel x = Break y \<or> read_num_iter sel x = Return_error e y \<Longrightarrow>
     rest_len (fst y) sel \<le> rest_len (fst x) sel"
proof (cases x)
  case (Pair ctx st)
  assume a: "read_num_iter sel x = Break y \<or> read_num_iter sel x = Return_error e y"
  obtain n co c1 where r: "read_ctx ctx sel = (n, co, c1)" by (cases "read_ctx ctx sel") auto
  show ?thesis
  proof (cases co)
    case None
    with a r Pair rest_len_read_None [of ctx sel n c1] show ?thesis
      by (auto simp: read_num_iter_def split: if_splits)
  next
    case (Some b)
    with r have r1: "rest_len ctx sel = Suc (rest_len c1 sel)" by (simp add: rest_len_read_Some)
    from a r Pair Some have "fst y = c1 \<or> fst y = unread_ctx c1 sel [b]
        \<or> fst y = unread_ctx (c1\<lparr>pdf_errors := insert E_PDF_MISSINGWHITESPACE (pdf_errors c1)\<rparr>) sel [b]"
      by (auto simp: read_num_iter_def num_char_def num_next_def split: if_splits)
    with r1 Pair show ?thesis by auto
  qed
qed

lemma read_num_loop_rest: "rest_len (fst (snd (read_num_loop sel x))) sel \<le> rest_len (fst x) sel"
proof (induction sel x rule: read_num_loop.induct)
  case (1 sel x)
  show ?case
  proof (cases "read_num_iter sel x")
    case (Continue y)
    with "1.IH" [OF Continue] read_num_iter_measure [OF Continue] show ?thesis
      by (subst read_num_loop.simps) (simp add: rest_len_def)
  next
    case (Break y)
    with read_num_iter_rest [of sel x y] show ?thesis
      by (subst read_num_loop.simps) simp
  next
    case (Return_error e y)
    with read_num_iter_rest [of sel x y e] show ?thesis
      by (subst read_num_loop.simps) simp
  qed
qed


lemma streams_free [simp]: "streams (ctx\<lparr>heap := h\<rparr>) = streams ctx"
  by simp

lemma rest_len_num_build [simp]: "rest_len (snd (num_build c1 st)) sel = rest_len c1 sel"
proof (cases rule: alloc_cases [of c1 "if real st \<and> \<not> malformed st then PDF_REAL else PDF_INT" 0])
  case (1 e)
  then show ?thesis by (simp add: num_build_def)
next
  case (2 a c2)
  then have "rest_len c2 sel = rest_len c1 sel" by (intro rest_len_streams)
  with 2 show ?thesis
    by (simp add: num_build_def Let_def split: scanned.splits)
qed

lemma rest_len_read_num_loop_result:
  "rest_len (snd (pdfi_read_num ctx sel)) sel
     = rest_len (fst (snd (read_num_loop sel (snd (skip_white ctx sel), init_num_locals)))) sel"
proof -
  obtain r c1 st where l: "read_num_loop sel (snd (skip_white ctx sel), init_num_locals) = (r, c1, st)"
    by (cases "read_num_loop sel (snd (skip_white ctx sel), init_num_locals)") auto
  then show ?thesis
    by (cases r) (simp_all add: pdfi_read_num_def)
qed

lemma rest_len_read_num: "rest_len (snd (pdfi_read_num ctx sel)) sel \<le> rest_len ctx sel"
  using read_num_loop_rest [of sel "(snd (skip_white ctx sel), init_num_locals)"]
    rest_len_skip_white [of ctx sel]
  by (simp add: rest_len_read_num_loop_result)

lemma read_num_consumes:
  assumes "is_digit c \<or> c = 0x2B \<or> c = 0x2D \<or> c = 0x2E"
    and "remaining (get_stream ctx sel) = c # r"
  shows "rest_len (snd (pdfi_read_num ctx sel)) sel \<le> length r"
proof -
  let ?c0 = "snd (skip_white ctx sel)"
  from assms(1) have nc: "number_char c" by (auto simp: number_char_def)
  then have nw: "\<not> iswhite c" "\<not> isdelimiter c" by (simp_all add: number_char_not_white)
  from skip_white_nonwhite [OF assms(2) nw(1)] have rem0: "remaining (get_stream ?c0 sel) = c # r"
    by simp
  from read_ctx_next [OF rem0] obtain c1 where
    r: "read_ctx ?c0 sel = (1, Some c, c1)" and rem1: "remaining (get_stream c1 sel) = r"
    by blast
  have "(\<exists>y. read_num_iter sel (?c0, init_num_locals) = Continue y \<and> fst y = c1)
      \<or> (\<exists>e y. read_num_iter sel (?c0, init_num_locals) = Return_error e y \<and> fst y = c1)"
    using r nw number_char_cases [OF nc]
    by (auto simp: read_num_iter_def num_char_def num_next_def init_num_locals_def)
  then have "rest_len (fst (snd (read_num_loop sel (?c0, init_num_locals)))) sel \<le> rest_len c1 sel"
  proof (elim disjE exE conjE)
    fix y assume y: "read_num_iter sel (?c0, init_num_locals) = Continue y" "fst y = c1"
    then have "read_num_loop sel (?c0, init_num_locals) = read_num_loop sel y"
      by (simp add: num_loop_Continue)
    with read_num_loop_rest [of sel y] y show ?thesis by simp
  next
    fix e y assume y: "read_num_iter sel (?c0, init_num_locals) = Return_error e y" "fst y = c1"
    then have "read_num_loop sel (?c0, init_num_locals) = (Some e, y)"
      by (simp add: num_loop_Return)
    with y show ?thesis by simp
  qed
  moreover have "rest_len c1 sel = length r" using rem1 by (simp add: rest_len_def)
  ultimately show ?thesis by (simp add: rest_len_read_num_loop_result)
qed


lemma build_rest [simp]: "rest_len (snd (string_build ctx1 t st)) sel = rest_len ctx1 sel"
proof (cases rule: alloc_cases [of ctx1 t "index st"])
  case (1 e)
  then show ?thesis by (simp add: string_build_def)
next
  case (2 a c2)
  then have "rest_len c2 sel = rest_len ctx1 sel" by (intro rest_len_streams)
  with 2 show ?thesis by (simp add: string_build_def)
qed

lemma read_name_iter_rest:
  assumes "read_name_iter sel x = Break y \<or> read_name_iter sel x = Return_error e y"
  shows "rest_len (fst y) sel \<le> rest_len (fst x) sel"
proof (cases x)
  case (Pair ctx st)
  obtain n co c1 where r: "read_ctx ctx sel = (n, co, c1)" by (cases "read_ctx ctx sel") auto
  show ?thesis
  proof (cases co)
    case None
    with assms r Pair rest_len_read_None [of ctx sel n c1] show ?thesis
      by (auto simp: read_name_iter_def split: if_splits)
  next
    case (Some b)
    with r have r1: "rest_len ctx sel = Suc (rest_len c1 sel)" by (simp add: rest_len_read_Some)
    obtain n2 co2 c2 where r2: "read_ctx c1 sel = (n2, co2, c2)" by (cases "read_ctx c1 sel") auto
    obtain n3 co3 c3 where r3: "read_ctx c2 sel = (n3, co3, c3)" by (cases "read_ctx c2 sel") auto
    have l2: "rest_len c2 sel \<le> rest_len c1 sel"
      using r2 rest_len_read_None [of c1 sel n2 c2] rest_len_read_Some [of c1 sel n2 _ c2]
      by (cases co2) auto
    have l3: "rest_len c3 sel \<le> rest_len c2 sel"
      using r3 rest_len_read_None [of c2 sel n3 c3] rest_len_read_Some [of c2 sel n3 _ c3]
      by (cases co3) auto
    from assms r Pair Some r2 r3
    have "fst y = c1 \<or> fst y = unread_ctx c1 sel [b] \<or> fst y = c2 \<or> fst y = c3"
      by (auto simp: read_name_iter_def name_next_def split: if_splits option.splits)
    with r1 l2 l3 Pair show ?thesis by auto
  qed
qed

lemma read_name_loop_rest: "rest_len (fst (snd (read_name_loop sel x))) sel \<le> rest_len (fst x) sel"
proof (induction sel x rule: read_name_loop.induct)
  case (1 sel x)
  show ?case
  proof (cases "read_name_iter sel x")
    case (Continue y)
    with "1.IH" [OF Continue] read_name_iter_measure [OF Continue] show ?thesis
      by (subst read_name_loop.simps) (simp add: rest_len_def)
  next
    case (Break y)
    with read_name_iter_rest [of sel x y] show ?thesis
      by (subst read_name_loop.simps) simp
  next
    case (Return_error e y)
    with read_name_iter_rest [of sel x y e] show ?thesis
      by (subst read_name_loop.simps) simp
  qed
qed

lemma rest_len_read_name: "rest_len (snd (pdfi_read_name ctx sel)) sel \<le> rest_len ctx sel"
proof -
  obtain r c1 st where l: "read_name_loop sel (ctx, init_string_locals) = (r, c1, st)"
    by (cases "read_name_loop sel (ctx, init_string_locals)") auto
  with read_name_loop_rest [of sel "(ctx, init_string_locals)"]
  have "rest_len c1 sel \<le> rest_len ctx sel" by simp
  with l show ?thesis
    by (cases r) (simp_all add: pdfi_read_name_def)
qed

lemma read_nonwhite_rest: "rest_len (snd (read_nonwhite sel ctx)) sel \<le> rest_len ctx sel"
proof (induction sel ctx rule: read_nonwhite.induct)
  case (1 sel ctx)
  obtain n co c1 where r: "read_ctx ctx sel = (n, co, c1)" by (cases "read_ctx ctx sel") auto
  show ?case
  proof (cases co)
    case None
    with r rest_len_read_None [of ctx sel n c1] show ?thesis
      by (subst read_nonwhite.simps) simp
  next
    case (Some b)
    with r have r1: "rest_len ctx sel = Suc (rest_len c1 sel)" by (simp add: rest_len_read_Some)
    show ?thesis
    proof (cases "iswhite b")
      case True
      with "1.IH" [OF r [symmetric] refl Some True] r r1 Some show ?thesis
        by (subst read_nonwhite.simps) simp
    next
      case False
      with r r1 Some show ?thesis by (subst read_nonwhite.simps) simp
    qed
  qed
qed

lemma read_hex_iter_rest:
  assumes "read_hex_iter sel x = Break y \<or> read_hex_iter sel x = Return_error e y"
  shows "rest_len (fst y) sel \<le> rest_len (fst x) sel"
proof (cases x)
  case (Pair ctx st)
  obtain o1 c1 where r1: "read_nonwhite sel ctx = (o1, c1)" by (cases "read_nonwhite sel ctx") auto
  obtain o2 c2 where r2: "read_nonwhite sel c1 = (o2, c2)" by (cases "read_nonwhite sel c1") auto
  have l1: "rest_len c1 sel \<le> rest_len ctx sel" using read_nonwhite_rest [of sel ctx] r1 by simp
  have l2: "rest_len c2 sel \<le> rest_len c1 sel" using read_nonwhite_rest [of sel c1] r2 by simp
  from assms Pair r1 r2 have "fst y = c1 \<or> fst y = c2"
    by (auto simp: read_hex_iter_def name_next_def split: option.splits if_splits)
  with l1 l2 Pair show ?thesis by auto
qed

lemma read_hex_loop_rest: "rest_len (fst (snd (read_hex_loop sel x))) sel \<le> rest_len (fst x) sel"
proof (induction sel x rule: read_hex_loop.induct)
  case (1 sel x)
  show ?case
  proof (cases "read_hex_iter sel x")
    case (Continue y)
    with "1.IH" [OF Continue] read_hex_iter_measure [OF Continue] show ?thesis
      by (subst read_hex_loop.simps) (simp add: rest_len_def)
  next
    case (Break y)
    with read_hex_iter_rest [of sel x y] show ?thesis
      by (subst read_hex_loop.simps) simp
  next
    case (Return_error e y)
    with read_hex_iter_rest [of sel x y e] show ?thesis
      by (subst read_hex_loop.simps) simp
  qed
qed

lemma rest_len_read_hexstring: "rest_len (snd (pdfi_read_hexstring ctx sel)) sel \<le> rest_len ctx sel"
proof -
  obtain r c1 st where l: "read_hex_loop sel (ctx, init_string_locals) = (r, c1, st)"
    by (cases "read_hex_loop sel (ctx, init_string_locals)") auto
  with read_hex_loop_rest [of sel "(ctx, init_string_locals)"]
  have "rest_len c1 sel \<le> rest_len ctx sel" by simp
  with l show ?thesis
    by (cases r) (simp_all add: pdfi_read_hexstring_def)
qed

lemma string_next_other:
  "string_next (ctx, st) = Break y \<Longrightarrow> y = (ctx, st)"
  by (auto simp: string_next_def split: if_splits)

lemma string_next_no_error [simp]: "string_next x \<noteq> Return_error e y"
  by (cases x) (auto simp: string_next_def)

lemma string_escaped_end:
  "string_escaped sel ctx st c = Break y \<or> string_escaped sel ctx st c = Return_error e y \<Longrightarrow>
     \<not> escape st \<Longrightarrow>
     string_measure sel y
       \<le> 4 * length (remaining (get_stream ctx sel)) + 7 + (if octal_index st \<noteq> 0 then 2 else 0)"
  by (cases y) (auto simp: string_escaped_def string_measure_def flush_octal_def put_char_def
      split: if_splits dest!: string_next_other)

lemma string_plain_end:
  "string_plain sel ctx st c = Break y \<or> string_plain sel ctx st c = Return_error e y \<Longrightarrow>
     \<not> escape st \<Longrightarrow>
     string_measure sel y
       \<le> 4 * length (remaining (get_stream ctx sel)) + 4 + (if octal_index st \<noteq> 0 then 2 else 0)"
  by (cases y) (auto simp: string_plain_def string_measure_def flush_octal_def put_char_def Let_def
      split: if_splits dest!: string_next_other)

lemma read_string_iter_end:
  assumes "read_string_iter sel x = Break y \<or> read_string_iter sel x = Return_error e y"
  shows "string_measure sel y \<le> string_measure sel x"
proof (cases x)
  case (Pair ctx st)
  obtain n co ctx1 where r: "read_ctx ctx sel = (n, co, ctx1)" by (cases "read_ctx ctx sel") auto
  show ?thesis
  proof (cases co)
    case None
    from r None have "remaining (get_stream ctx1 sel) = remaining (get_stream ctx sel)"
      by (auto dest: read_ctx_None_remaining)
    with assms r Pair None show ?thesis
      by (auto simp: read_string_iter_def string_measure_def put_char_def split: if_splits)
  next
    case (Some b)
    with r have rem: "remaining (get_stream ctx sel) = b # remaining (get_stream ctx1 sel)"
      by (simp add: read_ctx_Some)
    from assms r Pair Some have sc: "string_char sel ctx1 (put_char st b) b = Break y
        \<or> string_char sel ctx1 (put_char st b) b = Return_error e y"
      by (simp add: read_string_iter_def)
    show ?thesis
    proof (cases "skip_eol_flag st \<and> (b = 0x0a \<or> b = 0x0d)")
      case True
      with sc show ?thesis by (auto simp: string_char_def put_char_def)
    next
      case False
      show ?thesis
      proof (cases "escape st")
        case True
        with False sc have "string_escaped sel ctx1 ((put_char st b)\<lparr>skip_eol_flag := False, escape := False\<rparr>) b = Break y
          \<or> string_escaped sel ctx1 ((put_char st b)\<lparr>skip_eol_flag := False, escape := False\<rparr>) b = Return_error e y"
          by (auto simp: string_char_def put_char_def)
        then have "string_measure sel y \<le> 4 * length (remaining (get_stream ctx1 sel)) + 7
            + (if octal_index ((put_char st b)\<lparr>skip_eol_flag := False, escape := False\<rparr>) \<noteq> 0 then 2 else 0)"
          by (rule string_escaped_end) simp
        with Pair rem True show ?thesis by (simp add: string_measure_def put_char_def)
      next
        case esc: False
        with False sc have "string_plain sel ctx1 ((put_char st b)\<lparr>skip_eol_flag := False\<rparr>) b = Break y
          \<or> string_plain sel ctx1 ((put_char st b)\<lparr>skip_eol_flag := False\<rparr>) b = Return_error e y"
          by (auto simp: string_char_def put_char_def)
        then have "string_measure sel y \<le> 4 * length (remaining (get_stream ctx1 sel)) + 4
            + (if octal_index ((put_char st b)\<lparr>skip_eol_flag := False\<rparr>) \<noteq> 0 then 2 else 0)"
          by (rule string_plain_end) (simp add: put_char_def esc)
        with Pair rem esc show ?thesis by (simp add: string_measure_def put_char_def)
      qed
    qed
  qed
qed

lemma read_string_loop_measure:
  "string_measure sel (snd (read_string_loop sel x)) \<le> string_measure sel x"
proof (induction sel x rule: read_string_loop.induct)
  case (1 sel x)
  show ?case
  proof (cases "read_string_iter sel x")
    case (Continue y)
    with "1.IH" [OF Continue] read_string_iter_measure [OF Continue] show ?thesis
      by (subst read_string_loop.simps) simp
  next
    case (Break y)
    with read_string_iter_end [of sel x y] show ?thesis
      by (subst read_string_loop.simps) simp
  next
    case (Return_error e y)
    with read_string_iter_end [of sel x y e] show ?thesis
      by (subst read_string_loop.simps) simp
  qed
qed

lemma rest_len_read_string: "rest_len (snd (pdfi_read_string ctx sel)) sel \<le> rest_len ctx sel"
proof -
  obtain r c1 st where l: "read_string_loop sel (ctx, init_string_locals) = (r, c1, st)"
    by (cases "read_string_loop sel (ctx, init_string_locals)") auto
  with read_string_loop_measure [of sel "(ctx, init_string_locals)"]
  have "4 * rest_len c1 sel \<le> 4 * rest_len ctx sel"
    by (simp add: string_measure_def rest_len_def init_string_locals_def)
  then have "rest_len c1 sel \<le> rest_len ctx sel" by simp
  with l show ?thesis
    by (cases r) (simp_all add: pdfi_read_string_def)
qed


lemma streams_mark_stack [simp]: "streams (snd (pdfi_mark_stack ctx t)) = streams ctx"
  by (cases rule: alloc_cases [of ctx t 0]) (simp_all add: pdfi_mark_stack_def)

lemma streams_dict_collect [simp]: "streams (snd (dict_collect k d ctx)) = streams ctx"
  by (induction k d ctx rule: dict_collect.induct) (auto split: list.splits simp del: pdfi_pop.simps)

lemma streams_dict_from_stack [simp]: "streams (snd (pdfi_dict_from_stack ctx)) = streams ctx"
proof (cases "to_mark (heap ctx) (stack ctx)")
  case None
  then show ?thesis by (simp add: pdfi_dict_from_stack_def pdfi_count_to_mark_def)
next
  case (Some n)
  show ?thesis
  proof (cases "odd n")
    case True
    with Some show ?thesis by (simp add: pdfi_dict_from_stack_def pdfi_count_to_mark_def)
  next
    case False
    show ?thesis
    proof (cases rule: alloc_cases [of ctx PDF_DICT "n div 2"])
      case (1 e)
      with Some False show ?thesis by (simp add: pdfi_dict_from_stack_def pdfi_count_to_mark_def)
    next
      case (2 d c2)
      let ?c3 = "c2\<lparr>heap := upd_obj (heap c2) d (\<lambda>x. x\<lparr>entries := n div 2\<rparr>)\<rparr>"
      obtain r4 c4 where 4: "dict_collect (n div 2) d ?c3 = (r4, c4)"
        by (cases "dict_collect (n div 2) d ?c3") auto
      then have s4: "streams c4 = streams ctx"
        using streams_dict_collect [of "n div 2" d ?c3] 2 by simp
      obtain r5 c5 where 5: "pdfi_clear_to_mark c4 = (r5, c5)"
        by (cases "pdfi_clear_to_mark c4") auto
      then have s5: "streams c5 = streams ctx" using streams_clear_to_mark [of c4] s4 by simp
      from Some False 2 4 5 s4 s5 show ?thesis
        by (cases r4; cases r5)
           (simp_all add: pdfi_dict_from_stack_def pdfi_count_to_mark_def Let_def)
    qed
  qed
qed

lemma streams_keyword_push [simp]: "streams (snd (keyword_push ctx k ky)) = streams ctx"
  by (simp add: keyword_push_def Let_def)

lemma streams_keyword_literal [simp]: "streams (snd (keyword_literal ctx k t v)) = streams ctx"
  by (cases rule: alloc_cases [of "ctx\<lparr>heap := pdfi_countdown (heap ctx) k\<rparr>" t 0])
     (simp_all add: keyword_literal_def)

lemma streams_keyword_R [simp]: "streams (snd (keyword_R ctx k)) = streams ctx"
proof -
  let ?c1 = "ctx\<lparr>heap := pdfi_countdown (heap ctx) k\<rparr>"
  show ?thesis
  proof (cases rule: alloc_cases [of "pdfi_pop ?c1 2" PDF_INDIRECT 0])
    case (1 e)
    then show ?thesis
      by (simp add: keyword_R_def Let_def split: option.splits del: pdfi_pop.simps)
  next
    case (2 a c2)
    then show ?thesis
      by (simp add: keyword_R_def Let_def split: option.splits del: pdfi_pop.simps)
  qed
qed

lemma read_keyword_iter_rest:
  assumes "read_keyword_iter sel x = Break y \<or> read_keyword_iter sel x = Return_error e y"
  shows "rest_len (fst y) sel \<le> rest_len (fst x) sel"
proof (cases x)
  case (Pair ctx st)
  obtain n co c1 where r: "read_ctx ctx sel = (n, co, c1)" by (cases "read_ctx ctx sel") auto
  show ?thesis
  proof (cases co)
    case None
    with assms r Pair rest_len_read_None [of ctx sel n c1] show ?thesis
      by (auto simp: read_keyword_iter_def split: if_splits)
  next
    case (Some b)
    with r have r1: "rest_len ctx sel = Suc (rest_len c1 sel)" by (simp add: rest_len_read_Some)
    from assms r Pair Some have "fst y = c1 \<or> fst y = unread_ctx c1 sel [b]"
      by (auto simp: read_keyword_iter_def split: if_splits)
    with r1 Pair show ?thesis by auto
  qed
qed

lemma read_keyword_loop_rest:
  "rest_len (fst (snd (read_keyword_loop sel x))) sel \<le> rest_len (fst x) sel"
proof (induction sel x rule: read_keyword_loop.induct)
  case (1 sel x)
  show ?case
  proof (cases "read_keyword_iter sel x")
    case (Continue y)
    with "1.IH" [OF Continue] read_keyword_iter_measure [OF Continue] show ?thesis
      by (subst read_keyword_loop.simps) (simp add: rest_len_def)
  next
    case (Break y)
    with read_keyword_iter_rest [of sel x y] show ?thesis
      by (subst read_keyword_loop.simps) simp
  next
    case (Return_error e y)
    with read_keyword_iter_rest [of sel x y e] show ?thesis
      by (subst read_keyword_loop.simps) simp
  qed
qed

lemma rest_len_keyword_dispatch:
  "rest_len (snd (keyword_dispatch c3 sel k kw)) sel \<le> rest_len c3 sel"
proof -
  have push: "\<And>c ky. rest_len (snd (keyword_push c k ky)) sel = rest_len c sel"
    by (rule rest_len_streams) simp
  have lit: "\<And>t v. rest_len (snd (keyword_literal c3 k t v)) sel = rest_len c3 sel"
    by (rule rest_len_streams) simp
  have R: "rest_len (snd (keyword_R c3 k)) sel = rest_len c3 sel"
    by (rule rest_len_streams) simp
  let ?c3' = "c3\<lparr>heap := upd_obj (heap c3) k (\<lambda>x. x\<lparr>o_key := PDF_STREAM\<rparr>)\<rparr>"
  obtain r4 c4 where 4: "skip_eol ?c3' sel = (r4, c4)" by (cases "skip_eol ?c3' sel") auto
  have l4: "rest_len c4 sel \<le> rest_len c3 sel" using rest_len_skip_eol [of ?c3' sel] 4 by simp
  have st: "rest_len (snd (case skip_eol ?c3' sel of
                        (Inl e, ctx4) \<Rightarrow> (Inl e, ctx4\<lparr>heap := pdfi_countdown (heap ctx4) k\<rparr>)
                      | (Inr u, ctx4) \<Rightarrow> keyword_push ctx4 k PDF_STREAM)) sel \<le> rest_len c3 sel"
    using 4 l4 by (cases r4) (simp_all add: push)
  show ?thesis
    unfolding keyword_dispatch_def using st by (simp add: push lit R)
qed

lemma rest_len_keyword_build:
  "rest_len (snd (keyword_build c1 sel st)) sel \<le> rest_len c1 sel"
proof (cases "(num_index st \<ge> 255 \<or> num_index st = 0) \<and> pdfstoponerror c1")
  case True
  then show ?thesis by (simp add: keyword_build_def)
next
  case False
  define kw where "kw = (if num_index st \<ge> 255 \<or> num_index st = 0 then ascii ''KEYWORD_TOO_LONG''
                      else take (num_index st) (num_Buffer st))"
  show ?thesis
  proof (cases rule: alloc_cases [of c1 PDF_KEYWORD "length kw"])
    case (1 e)
    with False show ?thesis by (simp add: keyword_build_def kw_def [symmetric] Let_def)
  next
    case (2 k c2)
    let ?c3 = "c2\<lparr>heap := pdfi_countup (upd_obj (heap c2) k (\<lambda>x. x\<lparr>o_data := kw\<rparr>)) k\<rparr>"
    have "rest_len ?c3 sel = rest_len c1 sel" using 2 by (intro rest_len_streams) simp
    with rest_len_keyword_dispatch [of ?c3 sel k kw]
    have "rest_len (snd (keyword_dispatch ?c3 sel k kw)) sel \<le> rest_len c1 sel" by simp
    with False 2 show ?thesis by (simp add: keyword_build_def kw_def [symmetric] Let_def)
  qed
qed

lemma rest_len_read_keyword_loop_result:
  "rest_len (snd (pdfi_read_keyword ctx sel)) sel
     \<le> rest_len (fst (snd (read_keyword_loop sel (snd (skip_white ctx sel), init_num_locals)))) sel"
proof -
  obtain r c1 st where l: "read_keyword_loop sel (snd (skip_white ctx sel), init_num_locals) = (r, c1, st)"
    by (cases "read_keyword_loop sel (snd (skip_white ctx sel), init_num_locals)") auto
  then show ?thesis
    by (cases r) (simp_all add: pdfi_read_keyword_def rest_len_keyword_build)
qed

lemma read_keyword_consumes:
  assumes "\<not> iswhite c" "\<not> isdelimiter c"
    and "remaining (get_stream ctx sel) = c # r"
  shows "rest_len (snd (pdfi_read_keyword ctx sel)) sel \<le> length r"
proof -
  let ?c0 = "snd (skip_white ctx sel)"
  from skip_white_nonwhite [OF assms(3) assms(1)] have rem0: "remaining (get_stream ?c0 sel) = c # r"
    by simp
  from read_ctx_next [OF rem0] obtain c1 where
    r: "read_ctx ?c0 sel = (1, Some c, c1)" and rem1: "remaining (get_stream c1 sel) = r"
    by blast
  have "\<exists>y. read_keyword_iter sel (?c0, init_num_locals) = Continue y \<and> fst y = c1"
    using r assms(1,2)
    by (auto simp: read_keyword_iter_def init_num_locals_def)
  then obtain y where y: "read_keyword_iter sel (?c0, init_num_locals) = Continue y" "fst y = c1"
    by blast
  then have "read_keyword_loop sel (?c0, init_num_locals) = read_keyword_loop sel y"
    by (subst read_keyword_loop.simps) simp
  with read_keyword_loop_rest [of sel y] y
  have "rest_len (fst (snd (read_keyword_loop sel (?c0, init_num_locals)))) sel \<le> rest_len c1 sel"
    by simp
  moreover have "rest_len c1 sel = length r" using rem1 by (simp add: rest_len_def)
  ultimately show ?thesis using rest_len_read_keyword_loop_result [of ctx sel] by simp
qed


lemma rest_len_token_less: "rest_len (snd (token_less ctx sel b)) sel \<le> Suc (rest_len ctx sel)"
proof -
  have h: "rest_len (snd (pdfi_read_hexstring (unread_ctx ctx sel [b]) sel)) sel \<le> Suc (rest_len ctx sel)"
    using rest_len_read_hexstring [of "unread_ctx ctx sel [b]" sel] by simp
  have m: "rest_len (snd (pdfi_mark_stack ctx PDF_DICT_MARK)) sel = rest_len ctx sel"
    by (rule rest_len_streams) simp
  show ?thesis using h m by (auto simp: token_less_def)
qed


lemma token_char_num:
  "is_digit c \<or> c = 0x2B \<or> c = 0x2D \<or> c = 0x2E \<Longrightarrow>
     token_char c1 sel c = Finished (pdfi_read_num (unread_ctx c1 sel [c]) sel)"
  by (simp add: token_char_def)

lemma token_char_slash: "token_char c1 sel 0x2F = Finished (pdfi_read_name c1 sel)"
  by (simp add: token_char_def is_digit_def)

lemma token_char_lt:
  "token_char c1 sel 0x3C =
     Finished
          (case read_ctx c1 sel of
             (b, None, ctx2) \<Rightarrow> (Inl gs_error_ioerror, ctx2)
           | (b, Some b1, ctx2) \<Rightarrow>
               if iswhite b1 then
                 (case skip_white ctx2 sel of
                    (Inl e, ctx3) \<Rightarrow> (Inl e, ctx3)
                  | (Inr u, ctx3) \<Rightarrow>
                      (case read_ctx ctx3 sel of
                         (b', None, ctx4) \<Rightarrow> token_less ctx4 sel b1
                       | (b', Some b2, ctx4) \<Rightarrow> token_less ctx4 sel b2))
               else token_less ctx2 sel b1)"
  by (simp add: token_char_def is_digit_def)

lemma token_char_gt:
  "token_char c1 sel 0x3E =
     Finished
          (case read_ctx c1 sel of
             (b, None, ctx2) \<Rightarrow> (Inl gs_error_ioerror, ctx2)
           | (b, Some b1, ctx2) \<Rightarrow>
               if b1 = 0x3E then pdfi_dict_from_stack ctx2
               else (Inl gs_error_syntaxerror, ctx2))"
  by (simp add: token_char_def is_digit_def)

lemma token_char_paren: "token_char c1 sel 0x28 = Finished (pdfi_read_string c1 sel)"
  by (simp add: token_char_def is_digit_def)

lemma token_char_lbracket: "token_char c1 sel 0x5B = Finished (pdfi_mark_stack c1 PDF_ARRAY_MARK)"
  by (simp add: token_char_def is_digit_def)

lemma token_char_lbrace: "token_char c1 sel 0x7B = Finished (pdfi_mark_stack c1 PDF_PROC_MARK)"
  by (simp add: token_char_def is_digit_def)

lemma token_char_rparen:
  "token_char c1 sel 0x29 =
     (if pdfstoponerror c1 then Finished (Inl gs_error_syntaxerror, c1) else Retry c1)"
  by (simp add: token_char_def is_digit_def isdelimiter_def)

lemma token_char_keyword:
  "\<not> (is_digit c \<or> c = 0x2B \<or> c = 0x2D \<or> c = 0x2E) \<Longrightarrow> \<not> isdelimiter c \<Longrightarrow>
     token_char c1 sel c = Finished (pdfi_read_keyword (unread_ctx c1 sel [c]) sel)"
  by (simp add: token_char_def isdelimiter_def)

definition after_pass :: "(unit res) retry \<Rightarrow> pdf_context" where
  "after_pass p = (case p of Retry x \<Rightarrow> x | Finished r \<Rightarrow> snd r)"

lemma after_pass_simps [simp]:
  "after_pass (Retry x) = x" "after_pass (Finished r) = snd r"
  by (simp_all add: after_pass_def)

lemma token_lt_rest:
  "rest_len (snd (case read_ctx c1 sel of
             (b, None, ctx2) \<Rightarrow> (Inl gs_error_ioerror, ctx2)
           | (b, Some b1, ctx2) \<Rightarrow>
               if iswhite b1 then
                 (case skip_white ctx2 sel of
                    (Inl e, ctx3) \<Rightarrow> (Inl e, ctx3)
                  | (Inr u, ctx3) \<Rightarrow>
                      (case read_ctx ctx3 sel of
                         (b', None, ctx4) \<Rightarrow> token_less ctx4 sel b1
                       | (b', Some b2, ctx4) \<Rightarrow> token_less ctx4 sel b2))
               else token_less ctx2 sel b1)) sel \<le> rest_len c1 sel"
proof -
  obtain n co c2 where r: "read_ctx c1 sel = (n, co, c2)" by (cases "read_ctx c1 sel") auto
  show ?thesis
  proof (cases co)
    case None
    with r rest_len_read_None [of c1 sel n c2] show ?thesis by simp
  next
    case (Some b1)
    with r have r1: "rest_len c1 sel = Suc (rest_len c2 sel)" by (simp add: rest_len_read_Some)
    show ?thesis
    proof (cases "iswhite b1")
      case False
      with r Some r1 rest_len_token_less [of c2 sel b1] show ?thesis by simp
    next
      case True
      obtain r3 c3 where 3: "skip_white c2 sel = (r3, c3)" by (cases "skip_white c2 sel") auto
      have l3: "rest_len c3 sel \<le> rest_len c2 sel" using rest_len_skip_white [of c2 sel] 3 by simp
      show ?thesis
      proof (cases r3)
        case (Inl e)
        with r Some True 3 l3 r1 show ?thesis by simp
      next
        case (Inr u)
        obtain n4 co4 c4 where r4: "read_ctx c3 sel = (n4, co4, c4)"
          by (cases "read_ctx c3 sel") auto
        show ?thesis
        proof (cases co4)
          case None
          with r4 rest_len_read_None [of c3 sel n4 c4] have "rest_len c4 sel = rest_len c3 sel" by simp
          with rest_len_token_less [of c4 sel b1] l3 r1
          have "rest_len (snd (token_less c4 sel b1)) sel \<le> rest_len c1 sel" by simp
          with r Some True 3 Inr r4 None show ?thesis by simp
        next
          case (Some b2)
          with r4 have "rest_len c3 sel = Suc (rest_len c4 sel)" by (simp add: rest_len_read_Some)
          with rest_len_token_less [of c4 sel b2] l3 r1
          have "rest_len (snd (token_less c4 sel b2)) sel \<le> rest_len c1 sel" by simp
          with r \<open>co = Some b1\<close> True 3 Inr r4 Some show ?thesis by simp
        qed
      qed
    qed
  qed
qed

lemma token_gt_rest:
  "rest_len (snd (case read_ctx c1 sel of
             (b, None, ctx2) \<Rightarrow> (Inl gs_error_ioerror, ctx2)
           | (b, Some b1, ctx2) \<Rightarrow>
               if b1 = 0x3E then pdfi_dict_from_stack ctx2
               else (Inl gs_error_syntaxerror, ctx2))) sel \<le> rest_len c1 sel"
proof -
  obtain n co c2 where r: "read_ctx c1 sel = (n, co, c2)" by (cases "read_ctx c1 sel") auto
  show ?thesis
  proof (cases co)
    case None
    with r rest_len_read_None [of c1 sel n c2] show ?thesis by simp
  next
    case (Some b1)
    with r have r1: "rest_len c1 sel = Suc (rest_len c2 sel)" by (simp add: rest_len_read_Some)
    have "rest_len (snd (pdfi_dict_from_stack c2)) sel = rest_len c2 sel"
      by (rule rest_len_streams) simp
    with r Some r1 show ?thesis by simp
  qed
qed

lemma read_keyword_white:
  assumes "iswhite c" and "remaining (get_stream ctx sel) = c # r"
  shows "rest_len (snd (pdfi_read_keyword ctx sel)) sel \<le> length r"
proof -
  from read_ctx_next [OF assms(2)] obtain c1 where
    r: "read_ctx ctx sel = (1, Some c, c1)" and rem1: "remaining (get_stream c1 sel) = r"
    by blast
  have "skip_white ctx sel = skip_white_loop sel c1 ((0 + 1) mod 2 ^ 32)"
    unfolding skip_white_def using r assms(1) by (subst skip_white_loop.simps) simp
  with remaining_skip_white_loop [of sel c1 "(0 + 1) mod 2 ^ 32"] rem1
  have "rest_len (snd (skip_white ctx sel)) sel \<le> length r" by (simp add: rest_len_def)
  with read_keyword_loop_rest [of sel "(snd (skip_white ctx sel), init_num_locals)"]
    rest_len_read_keyword_loop_result [of ctx sel]
  show ?thesis by simp
qed

lemma token_char_rest: "rest_len (after_pass (token_char c1 sel c)) sel \<le> rest_len c1 sel"
proof -
  consider (num) "is_digit c \<or> c = 0x2B \<or> c = 0x2D \<or> c = 0x2E"
    | (slash) "c = 0x2F" | (lt) "c = 0x3C" | (gt) "c = 0x3E" | (paren) "c = 0x28"
    | (lbracket) "c = 0x5B" | (rbracket) "c = 0x5D" | (lbrace) "c = 0x7B" | (rbrace) "c = 0x7D"
    | (comment) "c = 0x25" | (rparen) "c = 0x29"
    | (kw) "\<not> (is_digit c \<or> c = 0x2B \<or> c = 0x2D \<or> c = 0x2E)" "\<not> isdelimiter c"
    unfolding isdelimiter_def by blast
  then show ?thesis
  proof cases
    case num
    have "remaining (get_stream (unread_ctx c1 sel [c]) sel) = c # remaining (get_stream c1 sel)"
      by simp
    from read_num_consumes [OF num this] show ?thesis
      by (simp add: token_char_num [OF num] rest_len_def)
  next
    case slash
    then show ?thesis by (simp add: token_char_slash rest_len_read_name)
  next
    case lt
    then show ?thesis unfolding lt token_char_lt after_pass_simps by (simp only: token_lt_rest)
  next
    case gt
    then show ?thesis unfolding gt token_char_gt after_pass_simps by (simp only: token_gt_rest)
  next
    case paren
    then show ?thesis by (simp add: token_char_paren rest_len_read_string)
  next
    case lbracket
    have "rest_len (snd (pdfi_mark_stack c1 PDF_ARRAY_MARK)) sel = rest_len c1 sel"
      by (rule rest_len_streams) simp
    with lbracket show ?thesis by (simp add: token_char_lbracket)
  next
    case rbracket
    obtain r2 c2 where a: "pdfi_array_from_stack c1 = (r2, c2)"
      by (cases "pdfi_array_from_stack c1") auto
    have s2: "streams c2 = streams c1" using streams_array_from_stack [of c1] a by simp
    then have "rest_len c2 sel = rest_len c1 sel" by (rule rest_len_streams)
    moreover have "rest_len (pdfi_clearstack c2) sel = rest_len c1 sel"
      using s2 by (intro rest_len_streams) simp
    ultimately show ?thesis
      unfolding rbracket token_char_bracket a by (cases r2) simp_all
  next
    case lbrace
    have "rest_len (snd (pdfi_mark_stack c1 PDF_PROC_MARK)) sel = rest_len c1 sel"
      by (rule rest_len_streams) simp
    with lbrace show ?thesis by (simp add: token_char_lbrace)
  next
    case rbrace
    have "rest_len (snd (pdfi_clear_to_mark c1)) sel = rest_len c1 sel"
      by (rule rest_len_streams) simp
    with rbrace show ?thesis by (simp add: token_char_brace)
  next
    case comment
    then show ?thesis by (simp add: token_char_comment rest_len_skip_comment)
  next
    case rparen
    then show ?thesis by (simp add: token_char_rparen)
  next
    case kw
    have rem: "remaining (get_stream (unread_ctx c1 sel [c]) sel) = c # remaining (get_stream c1 sel)"
      by simp
    have "rest_len (snd (pdfi_read_keyword (unread_ctx c1 sel [c]) sel)) sel
        \<le> length (remaining (get_stream c1 sel))"
    proof (cases "iswhite c")
      case True
      from read_keyword_white [OF True rem] show ?thesis .
    next
      case False
      from read_keyword_consumes [OF False kw(2) rem] show ?thesis .
    qed
    then show ?thesis by (simp add: token_char_keyword [OF kw] rest_len_def)
  qed
qed


lemma token_pass_progress:
  "(\<exists>r. token_pass ctx sel = Finished r \<and> eof (get_stream (snd r) sel)
         \<and> rest_len (snd r) sel \<le> rest_len ctx sel)
   \<or> rest_len (after_pass (token_pass ctx sel)) sel < rest_len ctx sel"
proof -
  let ?c0 = "snd (skip_white ctx sel)"
  obtain n co c1 where r: "read_ctx ?c0 sel = (n, co, c1)" by (cases "read_ctx ?c0 sel") auto
  show ?thesis
  proof (cases co)
    case None
    with r rest_len_read_None [of ?c0 sel n c1] rest_len_skip_white [of ctx sel]
    show ?thesis by (auto simp: token_pass_def)
  next
    case (Some c)
    with r have "rest_len ?c0 sel = Suc (rest_len c1 sel)" by (simp add: rest_len_read_Some)
    with rest_len_skip_white [of ctx sel] token_char_rest [of c1 sel c]
    have "rest_len (after_pass (token_char c1 sel c)) sel < rest_len ctx sel" by simp
    with r Some show ?thesis by (simp add: token_pass_def)
  qed
qed

lemma read_token_progress:
  "eof (get_stream (snd (pdfi_read_token ctx sel)) sel)
     \<and> rest_len (snd (pdfi_read_token ctx sel)) sel \<le> rest_len ctx sel
   \<or> rest_len (snd (pdfi_read_token ctx sel)) sel < rest_len ctx sel"
proof (induction ctx sel rule: pdfi_read_token.induct)
  case (1 ctx sel)
  show ?case
  proof (cases "token_pass ctx sel")
    case (Retry c')
    with token_pass_progress [of ctx sel] have lt: "rest_len c' sel < rest_len ctx sel" by simp
    from "1.IH" [OF Retry] lt Retry show ?thesis
      by (subst (1 2 3) pdfi_read_token.simps) auto
  next
    case (Finished r)
    with token_pass_progress [of ctx sel] show ?thesis
      by (subst (1 2 3) pdfi_read_token.simps) auto
  qed
qed

lemma read_token_rest: "rest_len (snd (pdfi_read_token ctx sel)) sel \<le> rest_len ctx sel"
  using read_token_progress [of ctx sel] by auto



section \<open>Dictionaries, seeking and filters\<close>

text \<open>
  Modelled from the spec: \<open>pdfi_dict_get\<close>, \<open>pdfi_dict_get_type\<close> and
  \<open>pdfi_dict_get_int\<close> are in a file that is not among the sources. A lookup compares
  the key byte for byte with the names among the first \<open>entries\<close> keys and returns a
  counted reference to the value; a missing key is an undefined error, and the typed
  variants fail with a type error when the value is not of the expected type. The model
  reports the value that is stored: an indirect reference is not resolved.
\<close>

fun dict_find ::
  "pdf_obj option list \<Rightarrow> byte list \<Rightarrow> addr option list \<Rightarrow> addr option list \<Rightarrow> addr option" where
  "dict_find h ky (Some k # ks) (Some v # vs) =
     (case obj_at h k of
        Some kob \<Rightarrow>
          if o_type kob = PDF_NAME \<and> o_data kob = ky then Some v else dict_find h ky ks vs
      | None \<Rightarrow> dict_find h ky ks vs)"
| "dict_find h ky (k # ks) (v # vs) = dict_find h ky ks vs"
| "dict_find h ky ks vs = None"

definition pdfi_dict_get :: "pdf_context \<Rightarrow> addr \<Rightarrow> byte list \<Rightarrow> addr res" where
  "pdfi_dict_get ctx d ky =
     (case obj_at (heap ctx) d of
        None \<Rightarrow> (Inl invalid_memory_access, ctx)
      | Some dob \<Rightarrow>
          (case dict_find (heap ctx) ky (take (entries dob) (o_keys dob))
                  (take (entries dob) (o_values dob)) of
             None \<Rightarrow> (Inl gs_error_undefined, ctx)
           | Some v \<Rightarrow> (Inr v, ctx\<lparr>heap := pdfi_countup (heap ctx) v\<rparr>)))"

definition pdfi_dict_get_type ::
  "pdf_context \<Rightarrow> addr \<Rightarrow> byte list \<Rightarrow> pdf_obj_type \<Rightarrow> addr res" where
  "pdfi_dict_get_type ctx d ky t =
     (case pdfi_dict_get ctx d ky of
        (Inl e, ctx1) \<Rightarrow> (Inl e, ctx1)
      | (Inr v, ctx1) \<Rightarrow>
          (case obj_at (heap ctx1) v of
             None \<Rightarrow> (Inl invalid_memory_access, ctx1)
           | Some vob \<Rightarrow>
               if o_type vob \<noteq> t
               then (Inl gs_error_typecheck, ctx1\<lparr>heap := pdfi_countdown (heap ctx1) v\<rparr>)
               else (Inr v, ctx1)))"

definition pdfi_dict_get_int :: "pdf_context \<Rightarrow> addr \<Rightarrow> byte list \<Rightarrow> int res" where
  "pdfi_dict_get_int ctx d ky =
     (case pdfi_dict_get_type ctx d ky PDF_INT of
        (Inl e, ctx1) \<Rightarrow> (Inl e, ctx1)
      | (Inr v, ctx1) \<Rightarrow>
          (case obj_at (heap ctx1) v of
             None \<Rightarrow> (Inl invalid_memory_access, ctx1)
           | Some vob \<Rightarrow> (Inr (num_i vob), ctx1\<lparr>heap := pdfi_countdown (heap ctx1) v\<rparr>)))"

text \<open>
  Modelled from the spec: \<open>pdfi_seek\<close> (see the section on streams) moves the read
  position of the main stream, to an offset from the start or from the current position,
  and forgets the bytes pushed back. A position outside the data is an error. The
  end-of-file flag is left as it is: \<open>pdfi_repair_file\<close> clears it by hand before it
  seeks.
\<close>

datatype seek_origin = SEEK_SET | SEEK_CUR

definition pdfi_seek :: "pdf_context \<Rightarrow> int \<Rightarrow> seek_origin \<Rightarrow> unit res" where
  "pdfi_seek ctx offset origin =
     (let s = main_stream ctx;
          target = (case origin of
                      SEEK_SET \<Rightarrow> offset
                    | SEEK_CUR \<Rightarrow> int (s_pos s) - int (length (unread_buf s)) + offset)
      in if target < 0 \<or> int (length (s_data s)) < target
         then (Inl gs_error_ioerror, ctx\<lparr>main_stream := s\<lparr>unread_buf := []\<rparr>\<rparr>)
         else (Inr (), ctx\<lparr>main_stream := s\<lparr>s_pos := nat target, unread_buf := []\<rparr>\<rparr>))"

text \<open>
  Modelled from the spec: \<open>pdfi_filter\<close> opens, at the current position of the main
  stream, the stream that the filters of a stream dictionary decode. The codecs are
  collaborators: \<open>decoded\<close> tabulates what they yield for a stream that starts at a given
  offset, and a stream that is not in the table is read as it stands in the file.
  \<open>pdfi_close_file\<close> releases the stream and changes nothing that the model keeps.
\<close>

definition pdfi_filter :: "pdf_context \<Rightarrow> addr \<Rightarrow> unit res" where
  "pdfi_filter ctx d =
     (let pos = s_pos (main_stream ctx);
          bytes = (case map_of (decoded ctx) pos of
                     Some bs \<Rightarrow> bs
                   | None \<Rightarrow> drop pos (s_data (main_stream ctx)))
      in (Inr (), ctx\<lparr>sub_stream := \<lparr> s_data = bytes, s_pos = 0, unread_buf = [], eof = False \<rparr>\<rparr>))"

definition pdfi_close_file :: "pdf_context \<Rightarrow> pdf_context" where
  "pdfi_close_file ctx = ctx"

section \<open>The object cache\<close>

text \<open>
  The cache is a doubly linked list of nodes, from the least recently used node
  \<open>cache_LRU\<close> along \<open>next\<close> to the most recently used node \<open>cache_MRU\<close>; every node holds
  one counted reference to an object, and the entry of the object's number in the
  cross-reference table points back at the node. The maximum number of entries,
  \<open>MAX_OBJECT_CACHE_SIZE\<close>, is a constant of a header that is not among the sources: it
  is the parameter \<open>mx\<close> of the functions below.

  Every access through a pointer is checked, so that a run that would read or write
  through a null or dangling pointer ends in \<open>invalid_memory_access\<close>.
\<close>

definition node_at :: "pdf_obj_cache_entry option list \<Rightarrow> addr \<Rightarrow> pdf_obj_cache_entry option" where
  "node_at ns p = (if p < length ns then ns ! p else None)"

definition upd_node ::
  "pdf_context \<Rightarrow> addr \<Rightarrow> (pdf_obj_cache_entry \<Rightarrow> pdf_obj_cache_entry) \<Rightarrow> unit res" where
  "upd_node ctx p f =
     (case node_at (cache_nodes ctx) p of
        None \<Rightarrow> (Inl invalid_memory_access, ctx)
      | Some nd \<Rightarrow> (Inr (), ctx\<lparr>cache_nodes := (cache_nodes ctx)[p := Some (f nd)]\<rparr>))"

definition set_xref_cache :: "pdf_context \<Rightarrow> nat \<Rightarrow> addr option \<Rightarrow> unit res" where
  "set_xref_cache ctx k v =
     (case xref_table ctx of
        None \<Rightarrow> (Inl invalid_memory_access, ctx)
      | Some xs \<Rightarrow>
          if k < length xs
          then (Inr (), ctx\<lparr>xref_table := Some (xs[k := (xs ! k)\<lparr>x_cache := v\<rparr>])\<rparr>)
          else (Inl invalid_memory_access, ctx))"

text \<open>
  The eviction of \<open>pdfi_add_to_cache\<close>, in its two stages. \<open>evict_unlink\<close> takes the
  least recently used node off the list and clears the pointer that the
  cross-reference entry of its object has to it; it returns the node and the object.
  \<open>evict_release\<close> then counts the object down, decrements the number of entries and
  frees the node.
\<close>

definition evict_unlink :: "pdf_context \<Rightarrow> (addr \<times> addr) res" where
  "evict_unlink ctx =
     (case cache_LRU ctx of
        None \<Rightarrow> (Inl gs_error_unknownerror, ctx)
      | Some e \<Rightarrow>
          (case node_at (cache_nodes ctx) e of
             None \<Rightarrow> (Inl invalid_memory_access, ctx)
           | Some nd \<Rightarrow>
               (case (case ce_next nd of
                        None \<Rightarrow> (Inr (), ctx\<lparr>cache_LRU := None\<rparr>)
                      | Some nx \<Rightarrow>
                          upd_node (ctx\<lparr>cache_LRU := Some nx\<rparr>) nx (\<lambda>x. x\<lparr>ce_previous := None\<rparr>)) of
                  (Inl err, ctx1) \<Rightarrow> (Inl err, ctx1)
                | (Inr u, ctx1) \<Rightarrow>
                    (case obj_at (heap ctx1) (ce_o nd) of
                       None \<Rightarrow> (Inl invalid_memory_access, ctx1)
                     | Some ob \<Rightarrow>
                         (case set_xref_cache ctx1 (object_num ob) None of
                            (Inl err, ctx2) \<Rightarrow> (Inl err, ctx2)
                          | (Inr u, ctx2) \<Rightarrow> (Inr (e, ce_o nd), ctx2))))))"

definition evict_release :: "pdf_context \<Rightarrow> addr \<Rightarrow> addr \<Rightarrow> pdf_context" where
  "evict_release ctx e ob =
     ctx\<lparr>heap := pdfi_countdown (heap ctx) ob,
         cache_entries := cache_entries ctx - 1,
         cache_nodes := (cache_nodes ctx)[e := None]\<rparr>"

definition cache_evict :: "pdf_context \<Rightarrow> unit res" where
  "cache_evict ctx =
     (case evict_unlink ctx of
        (Inl err, ctx1) \<Rightarrow> (Inl err, ctx1)
      | (Inr (e, ob), ctx1) \<Rightarrow> (Inr (), evict_release ctx1 e ob))"

text \<open>
  The insertion: a new node holds a counted reference to the object, is linked after
  the most recently used node and becomes the most recently used one, and the
  cross-reference entry of the object's number points at it.
\<close>

definition cache_insert :: "pdf_context \<Rightarrow> addr \<Rightarrow> unit res" where
  "cache_insert ctx ob =
     (let entry = length (cache_nodes ctx);
          ctx1 = ctx\<lparr>cache_nodes := cache_nodes ctx
                       @ [Some \<lparr> ce_next = None, ce_previous = None, ce_o = ob \<rparr>],
                     heap := pdfi_countup (heap ctx) ob\<rparr>
      in case (case cache_MRU ctx1 of
                 None \<Rightarrow> (Inr (), ctx1)
               | Some m \<Rightarrow>
                   (case upd_node ctx1 entry (\<lambda>x. x\<lparr>ce_previous := Some m\<rparr>) of
                      (Inl err, ctx2) \<Rightarrow> (Inl err, ctx2)
                    | (Inr u, ctx2) \<Rightarrow> upd_node ctx2 m (\<lambda>x. x\<lparr>ce_next := Some entry\<rparr>))) of
           (Inl err, ctx3) \<Rightarrow> (Inl err, ctx3)
         | (Inr u, ctx3) \<Rightarrow>
             let ctx4 = ctx3\<lparr>cache_MRU := Some entry,
                             cache_LRU := (if cache_LRU ctx3 = None then Some entry
                                           else cache_LRU ctx3),
                             cache_entries := cache_entries ctx3 + 1\<rparr>
             in (case obj_at (heap ctx4) ob of
                   None \<Rightarrow> (Inl invalid_memory_access, ctx4)
                 | Some x \<Rightarrow> set_xref_cache ctx4 (object_num x) (Some entry)))"

definition pdfi_add_to_cache :: "nat \<Rightarrow> pdf_context \<Rightarrow> addr \<Rightarrow> unit res" where
  "pdfi_add_to_cache mx ctx ob =
     (case (obj_at (heap ctx) ob, xref_table ctx) of
        (Some x, Some xs) \<Rightarrow>
          if object_num x > length xs then (Inl gs_error_rangecheck, ctx)
          else if cache_entries ctx = mx then
            (case cache_evict ctx of
               (Inl err, ctx1) \<Rightarrow> (Inl err, ctx1)
             | (Inr u, ctx1) \<Rightarrow> cache_insert ctx1 ob)
          else cache_insert ctx ob
      | _ \<Rightarrow> (Inl invalid_memory_access, ctx))"

text \<open>
  The promotion of a cache hit in \<open>pdfi_dereference\<close>: unless the node is the most
  recently used one already, it is taken out of the list and linked in again after the
  most recently used node.
\<close>

definition cache_promote :: "pdf_context \<Rightarrow> addr \<Rightarrow> unit res" where
  "cache_promote ctx ce =
     (case cache_MRU ctx of
        None \<Rightarrow> (Inr (), ctx)
      | Some m \<Rightarrow>
          if ce = m then (Inr (), ctx)
          else
            (case node_at (cache_nodes ctx) ce of
               None \<Rightarrow> (Inl invalid_memory_access, ctx)
             | Some nd \<Rightarrow>
                 (case (case ce_next nd of
                          None \<Rightarrow> (Inr (), ctx)
                        | Some nx \<Rightarrow> upd_node ctx nx (\<lambda>x. x\<lparr>ce_previous := ce_previous nd\<rparr>)) of
                    (Inl err, ctx1) \<Rightarrow> (Inl err, ctx1)
                  | (Inr u, ctx1) \<Rightarrow>
                      (case (case ce_previous nd of
                               None \<Rightarrow> (Inr (), ctx1\<lparr>cache_LRU := ce_next nd\<rparr>)
                             | Some pv \<Rightarrow> upd_node ctx1 pv (\<lambda>x. x\<lparr>ce_next := ce_next nd\<rparr>)) of
                         (Inl err, ctx2) \<Rightarrow> (Inl err, ctx2)
                       | (Inr u, ctx2) \<Rightarrow>
                           (case upd_node ctx2 ce
                                   (\<lambda>x. x\<lparr>ce_next := None, ce_previous := Some m\<rparr>) of
                              (Inl err, ctx3) \<Rightarrow> (Inl err, ctx3)
                            | (Inr u, ctx3) \<Rightarrow>
                                (case upd_node ctx3 m (\<lambda>x. x\<lparr>ce_next := Some ce\<rparr>) of
                                   (Inl err, ctx4) \<Rightarrow> (Inl err, ctx4)
                                 | (Inr u, ctx4) \<Rightarrow> (Inr (), ctx4\<lparr>cache_MRU := Some ce\<rparr>)))))))"


section \<open>Objects in the file: \<open>pdfi_read_object\<close>\<close>

text \<open>
  \<open>pdfi_read_object\<close> reads \<open>N G obj\<close>, then tokens up to the first keyword. The object
  and generation numbers go from the signed 64-bit value of the integer token into
  unsigned 64-bit variables. Where the C code reads \<open>stack_top[-1]\<close> of an empty stack
  (a token read at the end of the data succeeds and pushes nothing), the model ends
  the run with \<open>invalid_memory_access\<close>.
\<close>

definition read_int_token :: "pdf_context \<Rightarrow> stream_sel \<Rightarrow> nat res" where
  "read_int_token ctx sel =
     (case pdfi_read_token ctx sel of
        (Inl e, ctx1) \<Rightarrow> (Inl e, ctx1)
      | (Inr u, ctx1) \<Rightarrow>
          (case stack_obj ctx1 0 of
             None \<Rightarrow> (Inl invalid_memory_access, ctx1)
           | Some ob \<Rightarrow>
               if o_type ob \<noteq> PDF_INT then (Inl gs_error_typecheck, pdfi_pop ctx1 1)
               else (Inr (nat (num_i ob mod 2 ^ 64)), pdfi_pop ctx1 1)))"

definition read_obj_keyword :: "pdf_context \<Rightarrow> stream_sel \<Rightarrow> unit res" where
  "read_obj_keyword ctx sel =
     (case pdfi_read_token ctx sel of
        (Inl e, ctx1) \<Rightarrow> (Inl e, ctx1)
      | (Inr u, ctx1) \<Rightarrow>
          (case stack_obj ctx1 0 of
             None \<Rightarrow> (Inl invalid_memory_access, ctx1)
           | Some ob \<Rightarrow>
               if o_type ob \<noteq> PDF_KEYWORD then (Inl gs_error_typecheck, pdfi_pop ctx1 1)
               else if o_key ob \<noteq> PDF_OBJ then (Inl gs_error_syntaxerror, pdfi_pop ctx1 1)
               else (Inr (), pdfi_pop ctx1 1)))"

text \<open>The loop \<open>do { read a token } while (the top of the stack is not a keyword)\<close>.\<close>

function read_until_keyword :: "stream_sel \<Rightarrow> pdf_context \<Rightarrow> unit res" where
  "read_until_keyword sel ctx =
     (case pdfi_read_token ctx sel of
        (Inl e, ctx1) \<Rightarrow> (Inl e, ctx1)
      | (Inr u, ctx1) \<Rightarrow>
          if eof (get_stream ctx1 sel) then (Inl gs_error_syntaxerror, ctx1)
          else
            (case stack_type ctx1 0 of
               None \<Rightarrow> (Inl invalid_memory_access, ctx1)
             | Some t \<Rightarrow>
                 if t \<noteq> PDF_KEYWORD then read_until_keyword sel ctx1 else (Inr (), ctx1)))"
  by pat_completeness auto
termination
proof (relation "measure (\<lambda>(sel, ctx). rest_len ctx sel)")
  show "wf (measure (\<lambda>(sel, ctx). rest_len ctx sel))" by simp
next
  fix sel ctx x ctx1
  assume a: "(x, ctx1) = pdfi_read_token ctx sel" and b: "\<not> eof (get_stream ctx1 sel)"
  from a have "ctx1 = snd (pdfi_read_token ctx sel)" by (metis snd_conv)
  with b read_token_progress [of ctx sel] have "rest_len ctx1 sel < rest_len ctx sel" by auto
  then show "((sel, ctx1), sel, ctx) \<in> measure (\<lambda>(sel, ctx). rest_len ctx sel)" by simp
qed

declare read_until_keyword.simps [simp del]

text \<open>
  The object below the keyword gets the numbers of the header and goes into the cache
  (the endings with \<open>endobj\<close> and, in tolerant mode, with any other keyword).
\<close>

definition set_numbers :: "pdf_context \<Rightarrow> addr \<Rightarrow> nat \<Rightarrow> nat \<Rightarrow> pdf_context" where
  "set_numbers ctx a objnum gen =
     ctx\<lparr>heap := upd_obj (heap ctx) a (\<lambda>x. x\<lparr>object_num := objnum, generation_num := gen\<rparr>)\<rparr>"

definition finish_object :: "nat \<Rightarrow> pdf_context \<Rightarrow> nat \<Rightarrow> nat \<Rightarrow> unit res" where
  "finish_object mx ctx objnum gen =
     (if length (stack ctx) < 2 then (Inl gs_error_stackunderflow, ctx)
      else
        let ob = stack ctx ! 1
        in pdfi_add_to_cache mx (set_numbers (pdfi_pop ctx 1) ob objnum gen) ob)"

text \<open>
  The ending with \<open>stream\<close>: the dictionary below the keyword is the object; its stream
  starts after the end of line that follows the keyword. The length of the stream is
  then checked, without failing the read, by looking for \<open>endstream\<close> and \<open>endobj\<close>
  behind it.
\<close>

definition check_stream_end :: "pdf_context \<Rightarrow> stream_sel \<Rightarrow> unit res" where
  "check_stream_end ctx sel =
     (let ctx1 = snd (pdfi_read_token ctx sel)
      in if length (stack ctx1) < 2 then (Inr (), ctx1)
         else
           (case stack_obj ctx1 0 of
              None \<Rightarrow> (Inl invalid_memory_access, ctx1)
            | Some k \<Rightarrow>
                if o_type k \<noteq> PDF_KEYWORD then (Inr (), pdfi_pop ctx1 1)
                else if o_key k \<noteq> PDF_ENDSTREAM then (Inr (), pdfi_pop ctx1 1)
                else
                  (case pdfi_read_token (pdfi_pop ctx1 1) sel of
                     (Inl e, ctx2) \<Rightarrow>
                       if pdfstoponerror ctx2 then (Inl e, ctx2) else (Inr (), ctx2)
                   | (Inr u, ctx2) \<Rightarrow>
                       if length (stack ctx2) < 2 then (Inl gs_error_stackunderflow, ctx2)
                       else
                         (case stack_obj ctx2 0 of
                            None \<Rightarrow> (Inl invalid_memory_access, ctx2)
                          | Some k2 \<Rightarrow>
                              if o_type k2 \<noteq> PDF_KEYWORD
                                then (Inl gs_error_typecheck, pdfi_pop ctx2 2)
                              else if o_key k2 \<noteq> PDF_ENDOBJ
                                then (Inl gs_error_typecheck, pdfi_pop ctx2 2)
                              else (Inr (), pdfi_pop ctx2 1)))))"

definition finish_stream ::
  "nat \<Rightarrow> pdf_context \<Rightarrow> stream_sel \<Rightarrow> nat \<Rightarrow> nat \<Rightarrow> unit res" where
  "finish_stream mx ctx sel objnum gen =
     (let ctx1 = snd (skip_eol ctx MAIN);
          offset = pdfi_unread_tell ctx1;
          ctx2 = pdfi_pop ctx1 1
      in case stack ctx2 of
           [] \<Rightarrow> (Inl gs_error_stackunderflow, ctx2)
         | d # rest \<Rightarrow>
             (case obj_at (heap ctx2) d of
                None \<Rightarrow> (Inl invalid_memory_access, ctx2)
              | Some dob \<Rightarrow>
                  if o_type dob \<noteq> PDF_DICT then (Inl gs_error_syntaxerror, pdfi_pop ctx2 1)
                  else
                    let ctx3 = ctx2\<lparr>heap := upd_obj (heap ctx2) d
                                 (\<lambda>x. x\<lparr>object_num := objnum, generation_num := gen,
                                         stream_offset := offset\<rparr>)\<rparr>
                    in (case pdfi_add_to_cache mx ctx3 d of
                          (Inl e, ctx4) \<Rightarrow> (Inl e, pdfi_pop ctx4 1)
                        | (Inr u, ctx4) \<Rightarrow>
                            (case pdfi_dict_get_int ctx4 d (ascii ''Length'') of
                               (Inl e, ctx5) \<Rightarrow> (Inr (), ctx5)
                             | (Inr i, ctx5) \<Rightarrow>
                                 if i < 0 \<or> main_stream_length ctx5 < i + offset
                                   then (Inr (), ctx5)
                                 else
                                   (case pdfi_seek ctx5 i SEEK_CUR of
                                      (Inl e, ctx6) \<Rightarrow> (Inl e, pdfi_pop ctx6 1)
                                    | (Inr u, ctx6) \<Rightarrow> check_stream_end ctx6 sel)))))"

definition pdfi_read_object :: "nat \<Rightarrow> pdf_context \<Rightarrow> stream_sel \<Rightarrow> unit res" where
  "pdfi_read_object mx ctx sel =
     (case read_int_token ctx sel of
        (Inl e, ctx1) \<Rightarrow> (Inl e, ctx1)
      | (Inr objnum, ctx1) \<Rightarrow>
     (case read_int_token ctx1 sel of
        (Inl e, ctx2) \<Rightarrow> (Inl e, ctx2)
      | (Inr gen, ctx2) \<Rightarrow>
     (case read_obj_keyword ctx2 sel of
        (Inl e, ctx3) \<Rightarrow> (Inl e, ctx3)
      | (Inr u, ctx3) \<Rightarrow>
     (case pdfi_read_token ctx3 sel of
        (Inl e, ctx4) \<Rightarrow> (Inl e, ctx4)
      | (Inr u, ctx4) \<Rightarrow>
     (case read_until_keyword sel ctx4 of
        (Inl e, ctx5) \<Rightarrow> (Inl e, ctx5)
      | (Inr u, ctx5) \<Rightarrow>
          (case stack_obj ctx5 0 of
             None \<Rightarrow> (Inl invalid_memory_access, ctx5)
           | Some k \<Rightarrow>
               if o_key k = PDF_ENDOBJ then finish_object mx ctx5 objnum gen
               else if o_key k = PDF_STREAM then finish_stream mx ctx5 sel objnum gen
               else if \<not> pdfstoponerror ctx5 then
                 finish_object mx (ctx5\<lparr>pdf_errors := insert E_PDF_MISSINGENDOBJ (pdf_errors ctx5)\<rparr>)
                   objnum gen
               else (Inl gs_error_syntaxerror, pdfi_pop ctx5 2)))))))"

definition pdfi_read_object_of_type ::
  "nat \<Rightarrow> pdf_context \<Rightarrow> stream_sel \<Rightarrow> pdf_obj_type \<Rightarrow> unit res" where
  "pdfi_read_object_of_type mx ctx sel t =
     (case pdfi_read_object mx ctx sel of
        (Inl e, ctx1) \<Rightarrow> (Inl e, ctx1)
      | (Inr u, ctx1) \<Rightarrow>
          (case stack_type ctx1 0 of
             None \<Rightarrow> (Inl invalid_memory_access, ctx1)
           | Some t1 \<Rightarrow>
               if t1 \<noteq> t then (Inl gs_error_typecheck, pdfi_pop ctx1 1) else (Inr (), ctx1)))"


section \<open>Resolving references: \<open>pdfi_dereference\<close>\<close>

text \<open>
  Modelled from the spec: the loop detector is in a file that is not among the sources.
  An active scope is the list of the object numbers on the current resolution chain;
  \<open>pdfi_loop_detector_check_object\<close> says whether a number is on it, and
  \<open>pdfi_loop_detector_add_object\<close> puts a number at its end.
\<close>

definition pdfi_loop_detector_check_object :: "pdf_context \<Rightarrow> nat \<Rightarrow> bool" where
  "pdfi_loop_detector_check_object ctx n =
     (case loop_detection ctx of None \<Rightarrow> False | Some chain \<Rightarrow> n \<in> set chain)"

definition pdfi_loop_detector_add_object :: "pdf_context \<Rightarrow> nat \<Rightarrow> unit res" where
  "pdfi_loop_detector_add_object ctx n =
     (Inr (), ctx\<lparr>loop_detection := map_option (\<lambda>chain. chain @ [n]) (loop_detection ctx)\<rparr>)"

text \<open>
  The exits of \<open>pdfi_dereference\<close> that put the main stream back call \<open>pdfi_seek\<close> with
  the saved offset and drop its result.
\<close>

definition restore :: "pdf_context \<Rightarrow> int \<Rightarrow> pdf_context" where
  "restore ctx saved = snd (pdfi_seek ctx saved SEEK_SET)"

definition release :: "pdf_context \<Rightarrow> addr \<Rightarrow> pdf_context" where
  "release ctx a = ctx\<lparr>heap := pdfi_countdown (heap ctx) a\<rparr>"

definition retain :: "pdf_context \<Rightarrow> addr \<Rightarrow> pdf_context" where
  "retain ctx a = ctx\<lparr>heap := pdfi_countup (heap ctx) a\<rparr>"

text \<open>The cache hit: the object of the node, counted up, and the node promoted.\<close>

definition deref_cached :: "pdf_context \<Rightarrow> addr \<Rightarrow> addr res" where
  "deref_cached ctx ce =
     (case node_at (cache_nodes ctx) ce of
        None \<Rightarrow> (Inl invalid_memory_access, ctx)
      | Some nd \<Rightarrow>
          (case cache_promote (retain ctx (ce_o nd)) ce of
             (Inl e, ctx1) \<Rightarrow> (Inl e, ctx1)
           | (Inr u, ctx1) \<Rightarrow> (Inr (ce_o nd), ctx1)))"

text \<open>
  The classic branch: the object is read at the offset of the entry. It is popped
  before its number is compared with the requested one, and the exit for a wrong
  number is a plain \<open>return_error\<close>.
\<close>

definition deref_classic :: "nat \<Rightarrow> pdf_context \<Rightarrow> xref_entry \<Rightarrow> nat \<Rightarrow> int \<Rightarrow> addr res" where
  "deref_classic mx ctx entry obj saved =
     (case pdfi_seek ctx (x_offset entry) SEEK_SET of
        (Inl e, ctx1) \<Rightarrow> (Inl e, restore ctx1 saved)
      | (Inr u, ctx1) \<Rightarrow>
          (case pdfi_read_object mx ctx1 MAIN of
             (Inl e, ctx2) \<Rightarrow> (Inl e, restore ctx2 saved)
           | (Inr u, ctx2) \<Rightarrow>
               (case stack ctx2 of
                  [] \<Rightarrow> (Inl invalid_memory_access, ctx2)
                | a # st \<Rightarrow>
                    let ctx3 = pdfi_pop ctx2 1
                    in (case obj_at (heap ctx3) a of
                          None \<Rightarrow> (Inl invalid_memory_access, ctx3)
                        | Some ob \<Rightarrow>
                            if object_num ob = obj then (Inr a, retain ctx3 a)
                            else (Inl gs_error_undefined, ctx3)))))"

text \<open>
  The compressed branch, in its stages. First the object stream itself: from the
  cache, or read as a classic object at the offset of its own entry.
\<close>

definition objstm_object :: "nat \<Rightarrow> pdf_context \<Rightarrow> xref_entry \<Rightarrow> int \<Rightarrow> addr res" where
  "objstm_object mx ctx centry saved =
     (case x_cache centry of
        None \<Rightarrow>
          (case pdfi_seek ctx (x_offset centry) SEEK_SET of
             (Inl e, ctx1) \<Rightarrow> (Inl e, restore ctx1 saved)
           | (Inr u, ctx1) \<Rightarrow>
               (case pdfi_read_object_of_type mx ctx1 MAIN PDF_DICT of
                  (Inl e, ctx2) \<Rightarrow> (Inl e, restore ctx2 saved)
                | (Inr u, ctx2) \<Rightarrow>
                    (case stack ctx2 of
                       [] \<Rightarrow> (Inl invalid_memory_access, ctx2)
                     | d # st \<Rightarrow> (Inr d, pdfi_pop (retain ctx2 d) 1))))
      | Some ce \<Rightarrow>
          (case node_at (cache_nodes ctx) ce of
             None \<Rightarrow> (Inl invalid_memory_access, ctx)
           | Some nd \<Rightarrow> (Inr (ce_o nd), retain ctx (ce_o nd))))"

text \<open>Its \<open>/Type\<close> must be the name \<open>ObjStm\<close> and its \<open>/N\<close> a number of entries in range.\<close>

definition objstm_check :: "pdf_context \<Rightarrow> addr \<Rightarrow> int \<Rightarrow> int res" where
  "objstm_check ctx co saved =
     (case pdfi_dict_get_type ctx co (ascii ''Type'') PDF_NAME of
        (Inl e, ctx1) \<Rightarrow> (Inl e, restore (release ctx1 co) saved)
      | (Inr t, ctx1) \<Rightarrow>
          (case obj_at (heap ctx1) t of
             None \<Rightarrow> (Inl invalid_memory_access, ctx1)
           | Some nm \<Rightarrow>
               if o_data nm \<noteq> ascii ''ObjStm''
                 then (Inl gs_error_syntaxerror, restore (release (release ctx1 t) co) saved)
               else
                 (case pdfi_dict_get_int (release ctx1 t) co (ascii ''N'') of
                    (Inl e, ctx2) \<Rightarrow> (Inl e, restore (release ctx2 co) saved)
                  | (Inr n, ctx2) \<Rightarrow>
                      if n < 0 \<or> int (length (the (xref_table ctx2))) < n
                        then (Inl gs_error_rangecheck, restore (release ctx2 co) saved)
                      else (Inr n, ctx2))))"

text \<open>
  The exits taken while the decoded stream is open close it, release the object
  stream and put the main stream back.
\<close>

definition objstm_abort :: "pdf_context \<Rightarrow> addr \<Rightarrow> int \<Rightarrow> pdf_context" where
  "objstm_abort ctx co saved = restore (release (pdfi_close_file ctx) co) saved"

text \<open>
  The header of the decoded stream: \<open>N\<close> pairs of integers, the second of pair
  \<open>object_index\<close> being the offset of the member. The arguments are the number of pairs
  that are left, the loop counter \<open>i\<close>, and \<open>offset\<close> as it stands.
\<close>

fun objstm_header ::
  "nat \<Rightarrow> nat \<Rightarrow> nat \<Rightarrow> int \<Rightarrow> addr \<Rightarrow> int \<Rightarrow> pdf_context \<Rightarrow> int res" where
  "objstm_header 0 i idx offset co saved ctx = (Inr offset, ctx)"
| "objstm_header (Suc k) i idx offset co saved ctx =
     (case pdfi_read_token ctx SUB of
        (Inl e, ctx1) \<Rightarrow> (Inl e, objstm_abort ctx1 co saved)
      | (Inr u, ctx1) \<Rightarrow>
          (case stack_type ctx1 0 of
             None \<Rightarrow> (Inl invalid_memory_access, ctx1)
           | Some t \<Rightarrow>
               if t \<noteq> PDF_INT
                 then (Inl gs_error_typecheck, objstm_abort (pdfi_pop ctx1 1) co saved)
               else
                 (case pdfi_read_token (pdfi_pop ctx1 1) SUB of
                    (Inl e, ctx2) \<Rightarrow> (Inl e, objstm_abort ctx2 co saved)
                  | (Inr u, ctx2) \<Rightarrow>
                      (case stack_obj ctx2 0 of
                         None \<Rightarrow> (Inl invalid_memory_access, ctx2)
                       | Some ob \<Rightarrow>
                           if o_type ob \<noteq> PDF_INT
                             then (Inl gs_error_typecheck,
                                   objstm_abort (pdfi_pop ctx2 1) co saved)
                           else objstm_header k (i + 1) idx
                                  (if i = idx then num_i ob else offset) co saved
                                  (pdfi_pop ctx2 1)))))"

text \<open>
  The loop that reads \<open>offset\<close> bytes one by one. Its exit closes the decoded stream
  and returns: the object stream is not released and the main stream is not put back.
\<close>

fun skip_bytes :: "nat \<Rightarrow> pdf_context \<Rightarrow> unit res" where
  "skip_bytes 0 ctx = (Inr (), ctx)"
| "skip_bytes (Suc k) ctx =
     (case read_ctx ctx SUB of
        (n, None, ctx1) \<Rightarrow> (Inl gs_error_ioerror, pdfi_close_file ctx1)
      | (n, Some b, ctx1) \<Rightarrow> skip_bytes k ctx1)"

text \<open>The loop that reads the elements of a member that opens with a mark.\<close>

function read_composite :: "nat \<Rightarrow> addr \<Rightarrow> int \<Rightarrow> pdf_context \<Rightarrow> unit res" where
  "read_composite depth co saved ctx =
     (case pdfi_read_token ctx SUB of
        (Inl e, ctx1) \<Rightarrow> (Inl e, objstm_abort ctx1 co saved)
      | (Inr u, ctx1) \<Rightarrow>
          if eof (get_stream ctx1 SUB) then (Inl gs_error_ioerror, objstm_abort ctx1 co saved)
          else
            (case stack_type ctx1 0 of
               None \<Rightarrow> (Inl invalid_memory_access, ctx1)
             | Some t \<Rightarrow>
                 if (t \<noteq> PDF_ARRAY \<and> t \<noteq> PDF_DICT) \<or> depth < length (stack ctx1)
                 then read_composite depth co saved ctx1
                 else (Inr (), ctx1)))"
  by pat_completeness auto
termination
proof (relation "measure (\<lambda>(depth, co, saved, ctx). rest_len ctx SUB)")
  show "wf (measure (\<lambda>(depth, co, saved, ctx). rest_len ctx SUB))" by simp
next
  fix depth :: nat and co :: addr and saved :: int and ctx x ctx1
  assume a: "(x, ctx1) = pdfi_read_token ctx SUB" and b: "\<not> eof (get_stream ctx1 SUB)"
  from a have "ctx1 = snd (pdfi_read_token ctx SUB)" by (metis snd_conv)
  with b read_token_progress [of ctx SUB] have "rest_len ctx1 SUB < rest_len ctx SUB" by auto
  then show "((depth, co, saved, ctx1), depth, co, saved, ctx)
      \<in> measure (\<lambda>(depth, co, saved, ctx). rest_len ctx SUB)" by simp
qed

declare read_composite.simps [simp del]

text \<open>
  The member: one token at its offset, completed when it opens an array or a
  dictionary; the object on top of the stack gets the requested numbers, is counted up
  for the caller and popped, and the object stream is released.
\<close>

definition objstm_member ::
  "pdf_context \<Rightarrow> addr \<Rightarrow> nat \<Rightarrow> nat \<Rightarrow> int \<Rightarrow> addr res" where
  "objstm_member ctx co obj gen saved =
     (case pdfi_read_token ctx SUB of
        (Inl e, ctx1) \<Rightarrow> (Inl e, objstm_abort ctx1 co saved)
      | (Inr u, ctx1) \<Rightarrow>
          (case stack_type ctx1 0 of
             None \<Rightarrow> (Inl invalid_memory_access, ctx1)
           | Some t \<Rightarrow>
               (case (if t = PDF_ARRAY_MARK \<or> t = PDF_DICT_MARK
                      then read_composite (length (stack ctx1)) co saved ctx1
                      else (Inr (), ctx1)) of
                  (Inl e, ctx2) \<Rightarrow> (Inl e, ctx2)
                | (Inr u, ctx2) \<Rightarrow>
                    (case stack (pdfi_close_file ctx2) of
                       [] \<Rightarrow> (Inl invalid_memory_access, pdfi_close_file ctx2)
                     | a # st \<Rightarrow>
                         (Inr a,
                          release
                            (pdfi_pop
                               (retain (set_numbers (pdfi_close_file ctx2) a obj gen) a) 1)
                            co)))))"

definition deref_compressed ::
  "nat \<Rightarrow> pdf_context \<Rightarrow> xref_entry \<Rightarrow> nat \<Rightarrow> nat \<Rightarrow> int \<Rightarrow> addr res" where
  "deref_compressed mx ctx entry obj gen saved =
     (case xref_table ctx of
        None \<Rightarrow> (Inl invalid_memory_access, ctx)
      | Some xs \<Rightarrow>
     if length xs \<le> x_compressed_stream_num entry then (Inl invalid_memory_access, ctx)
     else
     (case objstm_object mx ctx (xs ! x_compressed_stream_num entry) saved of
        (Inl e, ctx1) \<Rightarrow> (Inl e, ctx1)
      | (Inr co, ctx1) \<Rightarrow>
     (case objstm_check ctx1 co saved of
        (Inl e, ctx2) \<Rightarrow> (Inl e, ctx2)
      | (Inr n, ctx2) \<Rightarrow>
     (case obj_at (heap ctx2) co of
        None \<Rightarrow> (Inl invalid_memory_access, ctx2)
      | Some cob \<Rightarrow>
     (case pdfi_seek ctx2 (stream_offset cob) SEEK_SET of
        (Inl e, ctx3) \<Rightarrow> (Inl e, restore (release ctx3 co) saved)
      | (Inr u, ctx3) \<Rightarrow>
     (case pdfi_filter ctx3 co of
        (Inl e, ctx4) \<Rightarrow> (Inl e, restore (release ctx4 co) saved)
      | (Inr u, ctx4) \<Rightarrow>
     (case objstm_header (nat n) 0 (x_object_index entry) 0 co saved ctx4 of
        (Inl e, ctx5) \<Rightarrow> (Inl e, ctx5)
      | (Inr offset, ctx5) \<Rightarrow>
     (case skip_bytes (nat offset) ctx5 of
        (Inl e, ctx6) \<Rightarrow> (Inl e, ctx6)
      | (Inr u, ctx6) \<Rightarrow> objstm_member ctx6 co obj gen saved))))))))"

text \<open>
  \<open>pdfi_dereference\<close>. The branch for a free entry counts the new Null object up
  \<open>if (code > 0)\<close>, and \<open>pdfi_alloc_object\<close> returns 0 when it succeeds: the branch
  returns the object as it was allocated.
\<close>

definition deref_resolve :: "nat \<Rightarrow> pdf_context \<Rightarrow> xref_entry \<Rightarrow> nat \<Rightarrow> nat \<Rightarrow> addr res" where
  "deref_resolve mx ctx entry obj gen =
     (case x_cache entry of
        Some ce \<Rightarrow> deref_cached ctx ce
      | None \<Rightarrow>
          let saved = pdfi_unread_tell ctx
          in (case (if x_compressed entry then deref_compressed mx ctx entry obj gen saved
                    else deref_classic mx ctx entry obj saved) of
                (Inl e, ctx1) \<Rightarrow> (Inl e, ctx1)
              | (Inr a, ctx1) \<Rightarrow> (Inr a, restore ctx1 saved)))"

definition deref_note :: "pdf_context \<Rightarrow> addr \<Rightarrow> addr res" where
  "deref_note ctx a =
     (if loop_detection ctx \<noteq> None then
        (case obj_at (heap ctx) a of
           None \<Rightarrow> (Inl invalid_memory_access, ctx)
         | Some ob \<Rightarrow>
             (case pdfi_loop_detector_add_object ctx (object_num ob) of
                (Inl e, ctx1) \<Rightarrow> (Inl e, ctx1)
              | (Inr u, ctx1) \<Rightarrow> (Inr a, ctx1)))
      else (Inr a, ctx))"

definition pdfi_dereference :: "nat \<Rightarrow> pdf_context \<Rightarrow> nat \<Rightarrow> nat \<Rightarrow> addr res" where
  "pdfi_dereference mx ctx obj gen =
     (case xref_table ctx of
        None \<Rightarrow> (Inl invalid_memory_access, ctx)
      | Some xs \<Rightarrow>
          if length xs \<le> obj then
            (let ctx1 = ctx\<lparr>pdf_errors := insert E_PDF_BADOBJNUMBER (pdf_errors ctx)\<rparr>
             in if pdfstoponerror ctx1 then (Inl gs_error_rangecheck, ctx1)
                else (case pdfi_alloc_object ctx1 PDF_NULL 0 of
                        (Inl e, ctx2) \<Rightarrow> (Inl e, ctx2)
                      | (Inr a, ctx2) \<Rightarrow> (Inr a, retain ctx2 a)))
          else
            let entry = xs ! obj
            in if x_object_num entry = 0 then (Inl gs_error_undefined, ctx)
               else if x_free entry then
                 (case pdfi_alloc_object ctx PDF_NULL 1 of
                    (Inl e, ctx1) \<Rightarrow> (Inl e, ctx1)
                  | (Inr a, ctx1) \<Rightarrow> (Inr a, ctx1))
               else if loop_detection ctx \<noteq> None \<and> pdfi_loop_detector_check_object ctx obj
                 then (Inl gs_error_circular_reference, ctx)
               else
                 (case deref_resolve mx ctx entry obj gen of
                    (Inl e, ctx1) \<Rightarrow> (Inl e, ctx1)
                  | (Inr a, ctx1) \<Rightarrow> deref_note ctx1 a))"


section \<open>Properties of \<open>pdfi_dereference\<close>\<close>

subsection \<open>The exits before the lookup\<close>

text \<open>The type and the reference count of the object at an address.\<close>

definition counted :: "pdf_context \<Rightarrow> addr \<Rightarrow> (pdf_obj_type \<times> int) option" where
  "counted ctx a = map_option (\<lambda>ob. (o_type ob, refcnt ob)) (obj_at (heap ctx) a)"

lemma alloc_null:
  "pdfi_alloc_object ctx PDF_NULL n
     = (Inr (length (heap ctx)), ctx\<lparr>heap := heap ctx @ [Some (zero_obj PDF_NULL)]\<rparr>)"
  by (simp add: pdfi_alloc_object_def)

definition free_entry :: xref_entry where
  "free_entry =
     \<lparr> x_compressed = False, x_free = True, x_object_num = 1, x_generation_num = 0,
       x_offset = 0, x_compressed_stream_num = 0, x_object_index = 0, x_cache = None \<rparr>"

definition unused_entry :: xref_entry where
  "unused_entry =
     \<lparr> x_compressed = False, x_free = False, x_object_num = 0, x_generation_num = 0,
       x_offset = 0, x_compressed_stream_num = 0, x_object_index = 0, x_cache = None \<rparr>"

definition free_entry_context :: pdf_context where
  "free_entry_context = empty_context\<lparr>xref_table := Some [unused_entry, free_entry]\<rparr>"

text \<open>
  Claim C1 fails in the branch for a free entry. The call succeeds and returns a new
  Null object whose reference count is 0: the count is raised \<open>if (code > 0)\<close>, and the
  code of a successful allocation is 0. (The branch for an object number out of range
  tests \<open>code == 0\<close> and returns its Null object with a count of 1.)
\<close>

theorem dereference_free_entry:
  assumes "xref_table ctx = Some xs" and "obj < length xs"
    and "x_object_num (xs ! obj) \<noteq> 0" and "x_free (xs ! obj)"
  shows "\<exists>a ctx'. pdfi_dereference mx ctx obj gen = (Inr a, ctx')
           \<and> counted ctx' a = Some (PDF_NULL, 0)"
  using assms
  by (simp add: pdfi_dereference_def alloc_null counted_def obj_at_def zero_obj_def)

text \<open>A table of two entries, the second of them free: object 1 resolves to such a Null.\<close>

theorem dereference_free_entry_witness:
  "\<exists>a ctx'. pdfi_dereference 8 free_entry_context 1 0 = (Inr a, ctx')
      \<and> counted ctx' a = Some (PDF_NULL, 0)"
  using dereference_free_entry [of free_entry_context "[unused_entry, free_entry]" 1 8 0]
  by (simp add: free_entry_context_def free_entry_def empty_context_def)

text \<open>
  Claim C3, as amended. An object number that is not below the size of the table sets
  the flag for a bad object number; the call then fails with a range error when
  stop-on-error is set, and otherwise returns a new Null object, counted once. An
  entry of the table whose recorded object number is 0 is an undefined error, and a free
  entry with a recorded number resolves to a new Null object.
\<close>

theorem dereference_bounds:
  "xref_table ctx = Some xs \<Longrightarrow>
     (length xs \<le> obj \<and> pdfstoponerror ctx \<longrightarrow>
        pdfi_dereference mx ctx obj gen
          = (Inl gs_error_rangecheck,
             ctx\<lparr>pdf_errors := insert E_PDF_BADOBJNUMBER (pdf_errors ctx)\<rparr>))
   \<and> (length xs \<le> obj \<and> \<not> pdfstoponerror ctx \<longrightarrow>
        (\<exists>a ctx'. pdfi_dereference mx ctx obj gen = (Inr a, ctx')
           \<and> counted ctx' a = Some (PDF_NULL, 1)
           \<and> E_PDF_BADOBJNUMBER \<in> pdf_errors ctx'))
   \<and> (obj < length xs \<and> x_object_num (xs ! obj) = 0 \<longrightarrow>
        pdfi_dereference mx ctx obj gen = (Inl gs_error_undefined, ctx))
   \<and> (obj < length xs \<and> x_object_num (xs ! obj) \<noteq> 0 \<and> x_free (xs ! obj) \<longrightarrow>
        (\<exists>a ctx'. pdfi_dereference mx ctx obj gen = (Inr a, ctx')
           \<and> map_option o_type (obj_at (heap ctx') a) = Some PDF_NULL))"
  by (simp add: pdfi_dereference_def alloc_null counted_def obj_at_def zero_obj_def Let_def
      retain_def pdfi_countup_def upd_obj_def)

theorem dereference_bounds_witness:
  "fst (pdfi_dereference 8 (stop_on_error free_entry_context) 2 0) = Inl gs_error_rangecheck
   \<and> (\<exists>a ctx'. pdfi_dereference 8 free_entry_context 2 0 = (Inr a, ctx')
           \<and> counted ctx' a = Some (PDF_NULL, 1)
           \<and> E_PDF_BADOBJNUMBER \<in> pdf_errors ctx')
   \<and> pdfi_dereference 8 free_entry_context 0 0 = (Inl gs_error_undefined, free_entry_context)
   \<and> (\<exists>a ctx'. pdfi_dereference 8 free_entry_context 1 0 = (Inr a, ctx')
           \<and> map_option o_type (obj_at (heap ctx') a) = Some PDF_NULL)"
  using dereference_bounds [of "stop_on_error free_entry_context" "[unused_entry, free_entry]" 2 8 0]
    dereference_bounds [of free_entry_context "[unused_entry, free_entry]" 2 8 0]
    dereference_bounds [of free_entry_context "[unused_entry, free_entry]" 0 8 0]
    dereference_bounds [of free_entry_context "[unused_entry, free_entry]" 1 8 0]
  by (simp add: free_entry_context_def free_entry_def unused_entry_def empty_context_def
      stop_on_error_def)

text \<open>
  The claim as stated fails when stop-on-error is not set: object number 7, beyond a
  table of two entries, resolves to a Null object and the call succeeds.
\<close>

theorem dereference_out_of_range_counterexample:
  "length (the (xref_table free_entry_context)) \<le> 7
   \<and> \<not> pdfstoponerror free_entry_context
   \<and> fst (pdfi_dereference 8 free_entry_context 7 0) = Inr 0"
  by (simp add: pdfi_dereference_def alloc_null free_entry_context_def empty_context_def)


subsection \<open>What resolving a reference leaves alone\<close>

text \<open>
  The fields of the context that neither the token reader nor \<open>pdfi_dereference\<close>
  assigns before its last step: the stop-on-error mode, the loop-detection scope, the
  length of the file, the table of the decoded streams, the root and the repair flag.
\<close>

definition settings ::
  "pdf_context \<Rightarrow> bool \<times> nat list option \<times> int \<times> (nat \<times> byte list) list \<times> addr option \<times> bool" where
  "settings ctx =
     (pdfstoponerror ctx, loop_detection ctx, main_stream_length ctx, decoded ctx, Root ctx,
      repaired ctx)"

text \<open>The state that a pass of a loop body leaves, however it ends.\<close>

fun ctl_state :: "'a loop_ctl \<Rightarrow> 'a" where
  "ctl_state (Continue x) = x"
| "ctl_state (Break x) = x"
| "ctl_state (Return_error e x) = x"

lemma settings_upd [simp]:
  "settings (ctx\<lparr>heap := h\<rparr>) = settings ctx"
  "settings (ctx\<lparr>stack := st\<rparr>) = settings ctx"
  "settings (ctx\<lparr>pdf_errors := e\<rparr>) = settings ctx"
  "settings (ctx\<lparr>main_stream := ms\<rparr>) = settings ctx"
  "settings (ctx\<lparr>sub_stream := ss\<rparr>) = settings ctx"
  "settings (ctx\<lparr>xref_table := x\<rparr>) = settings ctx"
  "settings (ctx\<lparr>cache_nodes := cn\<rparr>) = settings ctx"
  "settings (ctx\<lparr>cache_LRU := l\<rparr>) = settings ctx"
  "settings (ctx\<lparr>cache_MRU := m\<rparr>) = settings ctx"
  "settings (ctx\<lparr>cache_entries := n\<rparr>) = settings ctx"
  by (simp_all add: settings_def)

lemma settings_set_stream [simp]: "settings (set_stream ctx sel s) = settings ctx"
  by (cases sel) (simp_all add: set_stream_def)

lemma settings_read_ctx [simp]: "settings (snd (snd (read_ctx ctx sel))) = settings ctx"
  by (simp add: read_ctx_def split: prod.splits)

lemma settings_read_ctx': "read_ctx ctx sel = (n, co, c1) \<Longrightarrow> settings c1 = settings ctx"
  using settings_read_ctx [of ctx sel] by simp

lemma settings_unread [simp]: "settings (unread_ctx ctx sel bs) = settings ctx"
  by (simp add: unread_ctx_def)

lemma settings_push [simp]: "settings (pdfi_push ctx a) = settings ctx"
  by (simp add: pdfi_push_def)

lemma settings_pop [simp]: "settings (pdfi_pop ctx n) = settings ctx"
  by (induction ctx n rule: pdfi_pop.induct) (auto split: list.splits)

lemma settings_alloc [simp]: "settings (snd (pdfi_alloc_object ctx t n)) = settings ctx"
  by (simp add: pdfi_alloc_object_def Let_def)

lemma settings_alloc': "pdfi_alloc_object ctx t n = (r, c1) \<Longrightarrow> settings c1 = settings ctx"
  using settings_alloc [of ctx t n] by simp

lemma settings_clearstack [simp]: "settings (pdfi_clearstack ctx) = settings ctx"
  by (simp add: pdfi_clearstack_def)

lemma settings_clear_to_mark [simp]: "settings (snd (pdfi_clear_to_mark ctx)) = settings ctx"
  by (simp add: pdfi_clear_to_mark_def split: option.splits del: pdfi_pop.simps)

lemma settings_count_to_mark [simp]: "settings (snd (pdfi_count_to_mark ctx)) = settings ctx"
  by (simp add: pdfi_count_to_mark_def split: option.splits)

lemma settings_mark_stack [simp]: "settings (snd (pdfi_mark_stack ctx t)) = settings ctx"
  by (auto simp: pdfi_mark_stack_def split: prod.splits sum.splits dest: settings_alloc')

lemma settings_array_collect [simp]: "settings (array_collect k a ctx) = settings ctx"
  by (induction k a ctx rule: array_collect.induct) (auto split: list.splits)

lemma settings_dict_collect [simp]: "settings (snd (dict_collect k a ctx)) = settings ctx"
  by (induction k a ctx rule: dict_collect.induct) (auto split: list.splits option.splits if_splits)


lemma settings_dict_collect':
  "dict_collect k a ctx = (r, c1) \<Longrightarrow> settings c1 = settings ctx"
  using settings_dict_collect [of k a ctx] by simp

lemma settings_array_from_stack [simp]: "settings (snd (pdfi_array_from_stack ctx)) = settings ctx"
  by (auto simp: pdfi_array_from_stack_def Let_def pdfi_count_to_mark_def pdfi_clear_to_mark_def
      split: prod.splits sum.splits option.splits simp del: pdfi_pop.simps
      dest: settings_alloc')

lemma settings_dict_from_stack [simp]: "settings (snd (pdfi_dict_from_stack ctx)) = settings ctx"
  by (auto simp: pdfi_dict_from_stack_def Let_def pdfi_count_to_mark_def pdfi_clear_to_mark_def
      split: prod.splits sum.splits option.splits if_splits simp del: pdfi_pop.simps
      dest!: settings_alloc' settings_dict_collect')

lemma settings_skip_white_loop [simp]: "settings (snd (skip_white_loop sel ctx rd)) = settings ctx"
proof (induction sel ctx rd rule: skip_white_loop.induct)
  case (1 sel ctx rd)
  obtain n co c1 where r: "read_ctx ctx sel = (n, co, c1)" by (cases "read_ctx ctx sel") auto
  then have s: "settings c1 = settings ctx" by (rule settings_read_ctx')
  show ?case
  proof (cases co)
    case None
    with r s show ?thesis by (subst skip_white_loop.simps) simp
  next
    case (Some b)
    with "1.IH" [OF r [symmetric] refl Some] r s show ?thesis
      by (subst skip_white_loop.simps) simp
  qed
qed

lemma settings_skip_white [simp]: "settings (snd (skip_white ctx sel)) = settings ctx"
  by (simp add: skip_white_def)

lemma settings_skip_eol_loop [simp]: "settings (snd (skip_eol_loop sel ctx rd)) = settings ctx"
proof (induction sel ctx rd rule: skip_eol_loop.induct)
  case (1 sel ctx rd)
  obtain n co c1 where r: "read_ctx ctx sel = (n, co, c1)" by (cases "read_ctx ctx sel") auto
  then have s: "settings c1 = settings ctx" by (rule settings_read_ctx')
  show ?case
  proof (cases co)
    case None
    with r s show ?thesis by (subst skip_eol_loop.simps) simp
  next
    case (Some b)
    with "1.IH" [OF r [symmetric] refl Some] r s show ?thesis
      by (subst skip_eol_loop.simps) simp
  qed
qed

lemma settings_skip_eol [simp]: "settings (snd (skip_eol ctx sel)) = settings ctx"
  by (simp add: skip_eol_def)

lemma settings_skip_comment [simp]: "settings (snd (pdfi_skip_comment ctx sel)) = settings ctx"
proof (induction ctx sel rule: pdfi_skip_comment.induct)
  case (1 ctx sel)
  obtain n co c1 where r: "read_ctx ctx sel = (n, co, c1)" by (cases "read_ctx ctx sel") auto
  then have s: "settings c1 = settings ctx" by (rule settings_read_ctx')
  show ?case
  proof (cases co)
    case None
    with r s show ?thesis by (subst pdfi_skip_comment.simps) simp
  next
    case (Some b)
    with "1.IH" [OF r [symmetric] refl Some] r s show ?thesis
      by (subst pdfi_skip_comment.simps) auto
  qed
qed


lemma settings_string_next [simp]:
  "settings (fst (ctl_state (string_next x))) = settings (fst x)"
  by (cases x) (simp add: string_next_def)

lemma settings_num_next [simp]:
  "settings (fst (ctl_state (num_next x))) = settings (fst x)"
  by (cases x) (simp add: num_next_def)

lemma settings_name_next [simp]:
  "settings (fst (ctl_state (name_next x))) = settings (fst x)"
  by (cases x) (simp add: name_next_def)

lemma settings_string_escaped [simp]:
  "settings (fst (ctl_state (string_escaped sel ctx st c))) = settings ctx"
  by (simp add: string_escaped_def)

lemma settings_string_plain [simp]:
  "settings (fst (ctl_state (string_plain sel ctx st c))) = settings ctx"
  by (simp add: string_plain_def Let_def)

lemma settings_string_char [simp]:
  "settings (fst (ctl_state (string_char sel ctx st c))) = settings ctx"
  by (simp add: string_char_def)

lemma settings_read_string_iter [simp]:
  "settings (fst (ctl_state (read_string_iter sel x))) = settings (fst x)"
  by (cases x) (auto simp: read_string_iter_def split: prod.splits option.splits
      dest: settings_read_ctx')

lemma settings_read_string_loop [simp]:
  "settings (fst (snd (read_string_loop sel x))) = settings (fst x)"
proof (induction sel x rule: read_string_loop.induct)
  case (1 sel x)
  show ?case
  proof (cases "read_string_iter sel x")
    case (Continue y)
    with "1.IH" [OF Continue] settings_read_string_iter [of sel x] show ?thesis
      by (subst read_string_loop.simps) simp
  next
    case (Break y)
    with settings_read_string_iter [of sel x] show ?thesis
      by (subst read_string_loop.simps) simp
  next
    case (Return_error e y)
    with settings_read_string_iter [of sel x] show ?thesis
      by (subst read_string_loop.simps) simp
  qed
qed

lemma settings_string_build [simp]: "settings (snd (string_build ctx t st)) = settings ctx"
  by (auto simp: string_build_def split: prod.splits sum.splits dest: settings_alloc')

lemma settings_read_string [simp]: "settings (snd (pdfi_read_string ctx sel)) = settings ctx"
proof -
  obtain r c1 st where l: "read_string_loop sel (ctx, init_string_locals) = (r, c1, st)"
    by (cases "read_string_loop sel (ctx, init_string_locals)") auto
  with settings_read_string_loop [of sel "(ctx, init_string_locals)"]
  have "settings c1 = settings ctx" by simp
  with l show ?thesis by (cases r) (simp_all add: pdfi_read_string_def)
qed

lemma settings_num_char [simp]:
  "settings (fst (ctl_state (num_char sel ctx st c))) = settings ctx"
  by (simp add: num_char_def)

lemma settings_read_num_iter [simp]:
  "settings (fst (ctl_state (read_num_iter sel x))) = settings (fst x)"
  by (cases x) (auto simp: read_num_iter_def split: prod.splits option.splits
      dest: settings_read_ctx')

lemma settings_read_num_loop [simp]:
  "settings (fst (snd (read_num_loop sel x))) = settings (fst x)"
proof (induction sel x rule: read_num_loop.induct)
  case (1 sel x)
  show ?case
  proof (cases "read_num_iter sel x")
    case (Continue y)
    with "1.IH" [OF Continue] settings_read_num_iter [of sel x] show ?thesis
      by (subst read_num_loop.simps) simp
  next
    case (Break y)
    with settings_read_num_iter [of sel x] show ?thesis
      by (subst read_num_loop.simps) simp
  next
    case (Return_error e y)
    with settings_read_num_iter [of sel x] show ?thesis
      by (subst read_num_loop.simps) simp
  qed
qed

lemma settings_num_build [simp]: "settings (snd (num_build ctx st)) = settings ctx"
  by (auto simp: num_build_def Let_def split: prod.splits sum.splits scanned.splits
      dest: settings_alloc')

lemma settings_read_num [simp]: "settings (snd (pdfi_read_num ctx sel)) = settings ctx"
proof -
  obtain r c1 st where l: "read_num_loop sel (snd (skip_white ctx sel), init_num_locals) = (r, c1, st)"
    by (cases "read_num_loop sel (snd (skip_white ctx sel), init_num_locals)") auto
  with settings_read_num_loop [of sel "(snd (skip_white ctx sel), init_num_locals)"]
  have "settings c1 = settings ctx" by simp
  with l show ?thesis by (cases r) (simp_all add: pdfi_read_num_def)
qed

lemma settings_read_name_iter [simp]:
  "settings (fst (ctl_state (read_name_iter sel x))) = settings (fst x)"
  by (cases x) (auto simp: read_name_iter_def split: prod.splits option.splits
      dest!: settings_read_ctx')

lemma settings_read_name_loop [simp]:
  "settings (fst (snd (read_name_loop sel x))) = settings (fst x)"
proof (induction sel x rule: read_name_loop.induct)
  case (1 sel x)
  show ?case
  proof (cases "read_name_iter sel x")
    case (Continue y)
    with "1.IH" [OF Continue] settings_read_name_iter [of sel x] show ?thesis
      by (subst read_name_loop.simps) simp
  next
    case (Break y)
    with settings_read_name_iter [of sel x] show ?thesis
      by (subst read_name_loop.simps) simp
  next
    case (Return_error e y)
    with settings_read_name_iter [of sel x] show ?thesis
      by (subst read_name_loop.simps) simp
  qed
qed

lemma settings_read_name [simp]: "settings (snd (pdfi_read_name ctx sel)) = settings ctx"
proof -
  obtain r c1 st where l: "read_name_loop sel (ctx, init_string_locals) = (r, c1, st)"
    by (cases "read_name_loop sel (ctx, init_string_locals)") auto
  with settings_read_name_loop [of sel "(ctx, init_string_locals)"]
  have "settings c1 = settings ctx" by simp
  with l show ?thesis by (cases r) (simp_all add: pdfi_read_name_def)
qed

lemma settings_read_nonwhite [simp]: "settings (snd (read_nonwhite sel ctx)) = settings ctx"
proof (induction sel ctx rule: read_nonwhite.induct)
  case (1 sel ctx)
  obtain n co c1 where r: "read_ctx ctx sel = (n, co, c1)" by (cases "read_ctx ctx sel") auto
  then have s: "settings c1 = settings ctx" by (rule settings_read_ctx')
  show ?case
  proof (cases co)
    case None
    with r s show ?thesis by (subst read_nonwhite.simps) simp
  next
    case (Some b)
    with "1.IH" [OF r [symmetric] refl Some] r s show ?thesis
      by (subst read_nonwhite.simps) simp
  qed
qed

lemma settings_read_nonwhite':
  "read_nonwhite sel ctx = (r, c1) \<Longrightarrow> settings c1 = settings ctx"
  using settings_read_nonwhite [of sel ctx] by simp

lemma settings_read_hex_iter [simp]:
  "settings (fst (ctl_state (read_hex_iter sel x))) = settings (fst x)"
  by (cases x) (auto simp: read_hex_iter_def split: prod.splits option.splits
      dest!: settings_read_nonwhite')

lemma settings_read_hex_loop [simp]:
  "settings (fst (snd (read_hex_loop sel x))) = settings (fst x)"
proof (induction sel x rule: read_hex_loop.induct)
  case (1 sel x)
  show ?case
  proof (cases "read_hex_iter sel x")
    case (Continue y)
    with "1.IH" [OF Continue] settings_read_hex_iter [of sel x] show ?thesis
      by (subst read_hex_loop.simps) simp
  next
    case (Break y)
    with settings_read_hex_iter [of sel x] show ?thesis
      by (subst read_hex_loop.simps) simp
  next
    case (Return_error e y)
    with settings_read_hex_iter [of sel x] show ?thesis
      by (subst read_hex_loop.simps) simp
  qed
qed

lemma settings_read_hexstring [simp]: "settings (snd (pdfi_read_hexstring ctx sel)) = settings ctx"
proof -
  obtain r c1 st where l: "read_hex_loop sel (ctx, init_string_locals) = (r, c1, st)"
    by (cases "read_hex_loop sel (ctx, init_string_locals)") auto
  with settings_read_hex_loop [of sel "(ctx, init_string_locals)"]
  have "settings c1 = settings ctx" by simp
  with l show ?thesis by (cases r) (simp_all add: pdfi_read_hexstring_def)
qed

lemma settings_read_keyword_iter [simp]:
  "settings (fst (ctl_state (read_keyword_iter sel x))) = settings (fst x)"
  by (cases x) (auto simp: read_keyword_iter_def split: prod.splits option.splits
      dest: settings_read_ctx')

lemma settings_read_keyword_loop [simp]:
  "settings (fst (snd (read_keyword_loop sel x))) = settings (fst x)"
proof (induction sel x rule: read_keyword_loop.induct)
  case (1 sel x)
  show ?case
  proof (cases "read_keyword_iter sel x")
    case (Continue y)
    with "1.IH" [OF Continue] settings_read_keyword_iter [of sel x] show ?thesis
      by (subst read_keyword_loop.simps) simp
  next
    case (Break y)
    with settings_read_keyword_iter [of sel x] show ?thesis
      by (subst read_keyword_loop.simps) simp
  next
    case (Return_error e y)
    with settings_read_keyword_iter [of sel x] show ?thesis
      by (subst read_keyword_loop.simps) simp
  qed
qed

lemma settings_keyword_R [simp]: "settings (snd (keyword_R ctx k)) = settings ctx"
  by (auto simp: keyword_R_def Let_def split: prod.splits sum.splits option.splits
      simp del: pdfi_pop.simps dest!: settings_alloc')

lemma settings_keyword_literal [simp]: "settings (snd (keyword_literal ctx k t v)) = settings ctx"
  by (auto simp: keyword_literal_def split: prod.splits sum.splits dest: settings_alloc')

lemma settings_keyword_push [simp]: "settings (snd (keyword_push ctx k ky)) = settings ctx"
  by (simp add: keyword_push_def Let_def)


lemma settings_keyword_dispatch [simp]:
  "settings (snd (keyword_dispatch c3 sel k kw)) = settings c3"
proof -
  let ?c3' = "c3\<lparr>heap := upd_obj (heap c3) k (\<lambda>x. x\<lparr>o_key := PDF_STREAM\<rparr>)\<rparr>"
  obtain r4 c4 where 4: "skip_eol ?c3' sel = (r4, c4)" by (cases "skip_eol ?c3' sel") auto
  have l4: "settings c4 = settings c3" using settings_skip_eol [of ?c3' sel] 4 by simp
  have st: "settings (snd (case skip_eol ?c3' sel of
                        (Inl e, ctx4) \<Rightarrow> (Inl e, ctx4\<lparr>heap := pdfi_countdown (heap ctx4) k\<rparr>)
                      | (Inr u, ctx4) \<Rightarrow> keyword_push ctx4 k PDF_STREAM)) = settings c3"
    using 4 l4 by (cases r4) simp_all
  show ?thesis
    unfolding keyword_dispatch_def using st by simp
qed

lemma settings_keyword_build [simp]: "settings (snd (keyword_build ctx sel st)) = settings ctx"
  by (auto simp: keyword_build_def Let_def split: prod.splits sum.splits
      dest: settings_alloc')

lemma settings_read_keyword [simp]: "settings (snd (pdfi_read_keyword ctx sel)) = settings ctx"
proof -
  obtain r c1 st where l: "read_keyword_loop sel (snd (skip_white ctx sel), init_num_locals) = (r, c1, st)"
    by (cases "read_keyword_loop sel (snd (skip_white ctx sel), init_num_locals)") auto
  with settings_read_keyword_loop [of sel "(snd (skip_white ctx sel), init_num_locals)"]
  have "settings c1 = settings ctx" by simp
  with l show ?thesis by (cases r) (simp_all add: pdfi_read_keyword_def)
qed

lemma settings_skip_white': "skip_white ctx sel = (r, c1) \<Longrightarrow> settings c1 = settings ctx"
  using settings_skip_white [of ctx sel] by simp

lemma settings_array_from_stack':
  "pdfi_array_from_stack ctx = (r, c1) \<Longrightarrow> settings c1 = settings ctx"
  using settings_array_from_stack [of ctx] by simp

lemma settings_token_less [simp]: "settings (snd (token_less ctx sel b)) = settings ctx"
  by (simp add: token_less_def)

lemma settings_token_lt:
  "settings (snd (case read_ctx c1 sel of
             (b, None, ctx2) \<Rightarrow> (Inl gs_error_ioerror, ctx2)
           | (b, Some b1, ctx2) \<Rightarrow>
               if iswhite b1 then
                 (case skip_white ctx2 sel of
                    (Inl e, ctx3) \<Rightarrow> (Inl e, ctx3)
                  | (Inr u, ctx3) \<Rightarrow>
                      (case read_ctx ctx3 sel of
                         (b', None, ctx4) \<Rightarrow> token_less ctx4 sel b1
                       | (b', Some b2, ctx4) \<Rightarrow> token_less ctx4 sel b2))
               else token_less ctx2 sel b1)) = settings c1"
  by (auto split: prod.splits option.splits sum.splits
      dest!: settings_read_ctx' settings_skip_white')

lemma settings_token_gt:
  "settings (snd (case read_ctx c1 sel of
             (b, None, ctx2) \<Rightarrow> (Inl gs_error_ioerror, ctx2)
           | (b, Some b1, ctx2) \<Rightarrow>
               if b1 = 0x3E then pdfi_dict_from_stack ctx2
               else (Inl gs_error_syntaxerror, ctx2))) = settings c1"
  by (auto split: prod.splits option.splits dest!: settings_read_ctx')

lemma settings_token_bracket:
  "settings (after_pass (case pdfi_array_from_stack ctx1 of
           (Inl e, ctx2) \<Rightarrow>
             if e = gs_error_VMerror \<or> e = gs_error_ioerror \<or> pdfstoponerror ctx2
             then Finished (Inl e, ctx2)
             else Retry (pdfi_clearstack ctx2)
         | (Inr u, ctx2) \<Rightarrow> Finished (Inr (), ctx2))) = settings ctx1"
  by (auto split: prod.splits sum.splits dest!: settings_array_from_stack')

lemma settings_token_char [simp]: "settings (after_pass (token_char ctx sel c)) = settings ctx"
  unfolding token_char_def
  by (simp add: settings_token_lt settings_token_gt settings_token_bracket)

lemma settings_token_pass [simp]: "settings (after_pass (token_pass ctx sel)) = settings ctx"
proof -
  obtain n co c1 where r: "read_ctx (snd (skip_white ctx sel)) sel = (n, co, c1)"
    by (cases "read_ctx (snd (skip_white ctx sel)) sel") auto
  then have "settings c1 = settings ctx" using settings_read_ctx' [OF r] by simp
  with r show ?thesis by (cases co) (simp_all add: token_pass_def)
qed

lemma settings_read_token [simp]: "settings (snd (pdfi_read_token ctx sel)) = settings ctx"
proof (induction ctx sel rule: pdfi_read_token.induct)
  case (1 ctx sel)
  show ?case
  proof (cases "token_pass ctx sel")
    case (Retry c')
    with "1.IH" [OF Retry] settings_token_pass [of ctx sel] show ?thesis
      by (subst pdfi_read_token.simps) simp
  next
    case (Finished r)
    with settings_token_pass [of ctx sel] show ?thesis
      by (subst pdfi_read_token.simps) simp
  qed
qed

lemma settings_read_token': "pdfi_read_token ctx sel = (r, c1) \<Longrightarrow> settings c1 = settings ctx"
  using settings_read_token [of ctx sel] by simp

lemma settings_dict_get [simp]: "settings (snd (pdfi_dict_get ctx d ky)) = settings ctx"
  by (simp add: pdfi_dict_get_def split: option.splits)

lemma settings_dict_get': "pdfi_dict_get ctx d ky = (r, c1) \<Longrightarrow> settings c1 = settings ctx"
  using settings_dict_get [of ctx d ky] by simp

lemma settings_dict_get_type [simp]:
  "settings (snd (pdfi_dict_get_type ctx d ky t)) = settings ctx"
  by (auto simp: pdfi_dict_get_type_def split: prod.splits sum.splits option.splits
      dest!: settings_dict_get')

lemma settings_dict_get_type':
  "pdfi_dict_get_type ctx d ky t = (r, c1) \<Longrightarrow> settings c1 = settings ctx"
  using settings_dict_get_type [of ctx d ky t] by simp

lemma settings_dict_get_int [simp]:
  "settings (snd (pdfi_dict_get_int ctx d ky)) = settings ctx"
  by (auto simp: pdfi_dict_get_int_def split: prod.splits sum.splits option.splits
      dest!: settings_dict_get_type')

lemma settings_dict_get_int':
  "pdfi_dict_get_int ctx d ky = (r, c1) \<Longrightarrow> settings c1 = settings ctx"
  using settings_dict_get_int [of ctx d ky] by simp

lemma settings_seek [simp]: "settings (snd (pdfi_seek ctx off origin)) = settings ctx"
  by (simp add: pdfi_seek_def Let_def)

lemma settings_seek': "pdfi_seek ctx off origin = (r, c1) \<Longrightarrow> settings c1 = settings ctx"
  using settings_seek [of ctx off origin] by simp

lemma settings_filter [simp]: "settings (snd (pdfi_filter ctx d)) = settings ctx"
  by (simp add: pdfi_filter_def Let_def)

lemma settings_filter': "pdfi_filter ctx d = (r, c1) \<Longrightarrow> settings c1 = settings ctx"
  using settings_filter [of ctx d] by simp

lemma settings_close_file [simp]: "settings (pdfi_close_file ctx) = settings ctx"
  by (simp add: pdfi_close_file_def)

lemma settings_upd_node [simp]: "settings (snd (upd_node ctx p f)) = settings ctx"
  by (simp add: upd_node_def split: option.splits)

lemma settings_upd_node': "upd_node ctx p f = (r, c1) \<Longrightarrow> settings c1 = settings ctx"
  using settings_upd_node [of ctx p f] by simp

lemma settings_set_xref_cache [simp]: "settings (snd (set_xref_cache ctx k v)) = settings ctx"
  by (simp add: set_xref_cache_def split: option.splits)

lemma settings_set_xref_cache':
  "set_xref_cache ctx k v = (r, c1) \<Longrightarrow> settings c1 = settings ctx"
  using settings_set_xref_cache [of ctx k v] by simp

lemma settings_evict_unlink [simp]: "settings (snd (evict_unlink ctx)) = settings ctx"
  by (auto simp: evict_unlink_def split: prod.splits sum.splits option.splits
      dest!: settings_upd_node' settings_set_xref_cache')

lemma settings_evict_unlink': "evict_unlink ctx = (r, c1) \<Longrightarrow> settings c1 = settings ctx"
  using settings_evict_unlink [of ctx] by simp

lemma settings_evict_release [simp]: "settings (evict_release ctx e ob) = settings ctx"
  by (simp add: evict_release_def)

lemma settings_cache_evict [simp]: "settings (snd (cache_evict ctx)) = settings ctx"
  by (auto simp: cache_evict_def split: prod.splits sum.splits dest!: settings_evict_unlink')

lemma settings_cache_evict': "cache_evict ctx = (r, c1) \<Longrightarrow> settings c1 = settings ctx"
  using settings_cache_evict [of ctx] by simp

lemma settings_cache_insert [simp]: "settings (snd (cache_insert ctx ob)) = settings ctx"
  by (auto simp: cache_insert_def Let_def split: prod.splits sum.splits option.splits
      dest!: settings_upd_node' settings_set_xref_cache')

lemma settings_cache_insert': "cache_insert ctx ob = (r, c1) \<Longrightarrow> settings c1 = settings ctx"
  using settings_cache_insert [of ctx ob] by simp

lemma settings_add_to_cache [simp]: "settings (snd (pdfi_add_to_cache mx ctx ob)) = settings ctx"
  by (auto simp: pdfi_add_to_cache_def split: prod.splits sum.splits option.splits
      dest!: settings_cache_evict' settings_cache_insert')

lemma settings_add_to_cache':
  "pdfi_add_to_cache mx ctx ob = (r, c1) \<Longrightarrow> settings c1 = settings ctx"
  using settings_add_to_cache [of mx ctx ob] by simp

lemma settings_cache_promote [simp]: "settings (snd (cache_promote ctx ce)) = settings ctx"
  by (auto simp: cache_promote_def split: prod.splits sum.splits option.splits
      dest!: settings_upd_node')

lemma settings_cache_promote': "cache_promote ctx ce = (r, c1) \<Longrightarrow> settings c1 = settings ctx"
  using settings_cache_promote [of ctx ce] by simp

lemma settings_read_int_token [simp]: "settings (snd (read_int_token ctx sel)) = settings ctx"
  by (auto simp: read_int_token_def split: prod.splits sum.splits option.splits
      simp del: pdfi_pop.simps dest!: settings_read_token')

lemma settings_read_int_token':
  "read_int_token ctx sel = (r, c1) \<Longrightarrow> settings c1 = settings ctx"
  using settings_read_int_token [of ctx sel] by simp

lemma settings_read_obj_keyword [simp]: "settings (snd (read_obj_keyword ctx sel)) = settings ctx"
  by (auto simp: read_obj_keyword_def split: prod.splits sum.splits option.splits
      simp del: pdfi_pop.simps dest!: settings_read_token')

lemma settings_read_obj_keyword':
  "read_obj_keyword ctx sel = (r, c1) \<Longrightarrow> settings c1 = settings ctx"
  using settings_read_obj_keyword [of ctx sel] by simp

lemma settings_read_until_keyword [simp]:
  "settings (snd (read_until_keyword sel ctx)) = settings ctx"
proof (induction sel ctx rule: read_until_keyword.induct)
  case (1 sel ctx)
  obtain r c1 where t: "pdfi_read_token ctx sel = (r, c1)" by (cases "pdfi_read_token ctx sel") auto
  then have s: "settings c1 = settings ctx" by (rule settings_read_token')
  show ?case
  proof (cases r)
    case (Inl e)
    with t s show ?thesis by (subst read_until_keyword.simps) simp
  next
    case (Inr u)
    show ?thesis
    proof (cases "eof (get_stream c1 sel)")
      case True
      with t s Inr show ?thesis by (subst read_until_keyword.simps) simp
    next
      case False
      show ?thesis
      proof (cases "stack_type c1 0")
        case None
        with t s Inr False show ?thesis by (subst read_until_keyword.simps) simp
      next
        case (Some ty)
        with "1.IH" [OF t [symmetric] Inr False Some] t s Inr False show ?thesis
          by (subst read_until_keyword.simps) simp
      qed
    qed
  qed
qed

lemma settings_read_until_keyword':
  "read_until_keyword sel ctx = (r, c1) \<Longrightarrow> settings c1 = settings ctx"
  using settings_read_until_keyword [of sel ctx] by simp

lemma settings_set_numbers [simp]: "settings (set_numbers ctx a n g) = settings ctx"
  by (simp add: set_numbers_def)

lemma settings_finish_object [simp]: "settings (snd (finish_object mx ctx n g)) = settings ctx"
  by (simp add: finish_object_def Let_def del: pdfi_pop.simps)

lemma settings_check_stream_end [simp]: "settings (snd (check_stream_end ctx sel)) = settings ctx"
  by (auto simp: check_stream_end_def Let_def split: prod.splits sum.splits option.splits
      simp del: pdfi_pop.simps dest!: settings_read_token')

lemma settings_finish_stream [simp]:
  "settings (snd (finish_stream mx ctx sel n g)) = settings ctx"
  by (auto simp: finish_stream_def Let_def split: prod.splits sum.splits option.splits list.splits
      simp del: pdfi_pop.simps
      dest!: settings_add_to_cache' settings_dict_get_int' settings_seek')

lemma settings_read_object [simp]: "settings (snd (pdfi_read_object mx ctx sel)) = settings ctx"
  by (auto simp: pdfi_read_object_def split: prod.splits sum.splits option.splits
      simp del: pdfi_pop.simps
      dest!: settings_read_int_token' settings_read_obj_keyword' settings_read_token'
        settings_read_until_keyword')

lemma settings_read_object':
  "pdfi_read_object mx ctx sel = (r, c1) \<Longrightarrow> settings c1 = settings ctx"
  using settings_read_object [of mx ctx sel] by simp

lemma settings_read_object_of_type [simp]:
  "settings (snd (pdfi_read_object_of_type mx ctx sel t)) = settings ctx"
  by (auto simp: pdfi_read_object_of_type_def split: prod.splits sum.splits option.splits
      simp del: pdfi_pop.simps dest!: settings_read_object')

lemma settings_read_object_of_type':
  "pdfi_read_object_of_type mx ctx sel t = (r, c1) \<Longrightarrow> settings c1 = settings ctx"
  using settings_read_object_of_type [of mx ctx sel t] by simp

lemma settings_restore [simp]: "settings (restore ctx saved) = settings ctx"
  by (simp add: restore_def)

lemma settings_release [simp]: "settings (release ctx a) = settings ctx"
  by (simp add: release_def)

lemma settings_retain [simp]: "settings (retain ctx a) = settings ctx"
  by (simp add: retain_def)

lemma settings_objstm_abort [simp]: "settings (objstm_abort ctx co saved) = settings ctx"
  by (simp add: objstm_abort_def)

lemma settings_deref_cached [simp]: "settings (snd (deref_cached ctx ce)) = settings ctx"
  by (auto simp: deref_cached_def split: prod.splits sum.splits option.splits
      dest!: settings_cache_promote')

lemma settings_deref_classic [simp]:
  "settings (snd (deref_classic mx ctx entry obj saved)) = settings ctx"
  by (auto simp: deref_classic_def Let_def split: prod.splits sum.splits option.splits list.splits
      simp del: pdfi_pop.simps dest!: settings_seek' settings_read_object')

lemma settings_objstm_object [simp]:
  "settings (snd (objstm_object mx ctx centry saved)) = settings ctx"
  by (auto simp: objstm_object_def split: prod.splits sum.splits option.splits list.splits
      simp del: pdfi_pop.simps dest!: settings_seek' settings_read_object_of_type')

lemma settings_objstm_object':
  "objstm_object mx ctx centry saved = (r, c1) \<Longrightarrow> settings c1 = settings ctx"
  using settings_objstm_object [of mx ctx centry saved] by simp

lemma settings_objstm_check [simp]: "settings (snd (objstm_check ctx co saved)) = settings ctx"
  by (auto simp: objstm_check_def split: prod.splits sum.splits option.splits
      dest!: settings_dict_get_type' settings_dict_get_int')

lemma settings_objstm_check':
  "objstm_check ctx co saved = (r, c1) \<Longrightarrow> settings c1 = settings ctx"
  using settings_objstm_check [of ctx co saved] by simp

lemma settings_objstm_header [simp]:
  "settings (snd (objstm_header k i idx offset co saved ctx)) = settings ctx"
proof (induction k i idx offset co saved ctx rule: objstm_header.induct)
  case (1 i idx offset co saved ctx)
  then show ?case by simp
next
  case (2 k i idx offset co saved ctx)
  obtain r1 c1 where t1: "pdfi_read_token ctx SUB = (r1, c1)"
    by (cases "pdfi_read_token ctx SUB") auto
  then have s1: "settings c1 = settings ctx" by (rule settings_read_token')
  show ?case
  proof (cases r1)
    case (Inl e)
    with t1 s1 show ?thesis by simp
  next
    case (Inr u)
    note r1 = this
    show ?thesis
    proof (cases "stack_type c1 0")
      case None
      with t1 s1 r1 show ?thesis by simp
    next
      case (Some ty)
      note ty = this
      show ?thesis
      proof (cases "ty \<noteq> PDF_INT")
        case True
        with t1 s1 r1 ty show ?thesis by (simp del: pdfi_pop.simps)
      next
        case False
        obtain r2 c2 where t2: "pdfi_read_token (pdfi_pop c1 1) SUB = (r2, c2)"
          by (cases "pdfi_read_token (pdfi_pop c1 1) SUB") auto
        then have s2: "settings c2 = settings ctx"
          using settings_read_token' [OF t2] s1 by (simp del: pdfi_pop.simps)
        show ?thesis
        proof (cases r2)
          case (Inl e)
          with t1 s1 r1 ty False t2 s2 show ?thesis by (simp del: pdfi_pop.simps)
        next
          case (Inr u2)
          note r2 = this
          show ?thesis
          proof (cases "stack_obj c2 0")
            case None
            with t1 s1 r1 ty False t2 s2 r2 show ?thesis by (simp del: pdfi_pop.simps)
          next
            case (Some ob)
            show ?thesis
            proof (cases "o_type ob \<noteq> PDF_INT")
              case True
              with t1 s1 r1 ty False t2 s2 r2 Some show ?thesis by (simp del: pdfi_pop.simps)
            next
              case F2: False
              from "2.IH" [OF t1 [symmetric] r1 ty _ t2 [symmetric] r2 Some] False F2
              have "settings (snd (objstm_header k (i + 1) idx
                      (if i = idx then num_i ob else offset) co saved (pdfi_pop c2 1)))
                    = settings (pdfi_pop c2 1)"
                by simp
              with t1 s1 r1 ty False t2 s2 r2 Some F2 show ?thesis
                by (simp del: pdfi_pop.simps)
            qed
          qed
        qed
      qed
    qed
  qed
qed

lemma settings_objstm_header':
  "objstm_header k i idx offset co saved ctx = (r, c1) \<Longrightarrow> settings c1 = settings ctx"
  using settings_objstm_header [of k i idx offset co saved ctx] by simp

lemma settings_skip_bytes [simp]: "settings (snd (skip_bytes k ctx)) = settings ctx"
proof (induction k ctx rule: skip_bytes.induct)
  case (1 ctx)
  then show ?case by simp
next
  case (2 k ctx)
  obtain n co c1 where r: "read_ctx ctx SUB = (n, co, c1)" by (cases "read_ctx ctx SUB") auto
  then have s: "settings c1 = settings ctx" by (rule settings_read_ctx')
  show ?case
  proof (cases co)
    case None
    with r s show ?thesis by simp
  next
    case (Some b)
    with "2.IH" [OF r [symmetric] refl Some] r s show ?thesis by simp
  qed
qed

lemma settings_skip_bytes': "skip_bytes k ctx = (r, c1) \<Longrightarrow> settings c1 = settings ctx"
  using settings_skip_bytes [of k ctx] by simp

lemma settings_read_composite [simp]:
  "settings (snd (read_composite depth co saved ctx)) = settings ctx"
proof (induction depth co saved ctx rule: read_composite.induct)
  case (1 depth co saved ctx)
  obtain r c1 where t: "pdfi_read_token ctx SUB = (r, c1)" by (cases "pdfi_read_token ctx SUB") auto
  then have s: "settings c1 = settings ctx" by (rule settings_read_token')
  show ?case
  proof (cases r)
    case (Inl e)
    with t s show ?thesis by (subst read_composite.simps) simp
  next
    case (Inr u)
    show ?thesis
    proof (cases "eof (get_stream c1 SUB)")
      case True
      with t s Inr show ?thesis by (subst read_composite.simps) simp
    next
      case False
      show ?thesis
      proof (cases "stack_type c1 0")
        case None
        with t s Inr False show ?thesis by (subst read_composite.simps) simp
      next
        case (Some ty)
        with "1.IH" [OF t [symmetric] Inr False Some] t s Inr False show ?thesis
          by (subst read_composite.simps) simp
      qed
    qed
  qed
qed

lemma settings_read_composite':
  "read_composite depth co saved ctx = (r, c1) \<Longrightarrow> settings c1 = settings ctx"
  using settings_read_composite [of depth co saved ctx] by simp

lemma settings_objstm_member [simp]:
  "settings (snd (objstm_member ctx co obj gen saved)) = settings ctx"
  by (auto simp: objstm_member_def split: prod.splits sum.splits option.splits list.splits
      if_splits simp del: pdfi_pop.simps dest!: settings_read_token' settings_read_composite')

lemma settings_deref_compressed [simp]:
  "settings (snd (deref_compressed mx ctx entry obj gen saved)) = settings ctx"
  by (auto simp: deref_compressed_def split: prod.splits sum.splits option.splits
      simp del: pdfi_pop.simps
      dest!: settings_objstm_object' settings_objstm_check' settings_seek' settings_filter'
        settings_objstm_header' settings_skip_bytes')

lemma settings_deref_resolve [simp]:
  "settings (snd (deref_resolve mx ctx entry obj gen)) = settings ctx"
proof (cases "x_cache entry")
  case (Some ce)
  then show ?thesis by (simp add: deref_resolve_def)
next
  case None
  show ?thesis
  proof (cases "x_compressed entry")
    case True
    obtain r c1 where d: "deref_compressed mx ctx entry obj gen (pdfi_unread_tell ctx) = (r, c1)"
      by (cases "deref_compressed mx ctx entry obj gen (pdfi_unread_tell ctx)") auto
    with settings_deref_compressed [of mx ctx entry obj gen "pdfi_unread_tell ctx"]
    have "settings c1 = settings ctx" by simp
    with d None True show ?thesis by (cases r) (simp_all add: deref_resolve_def Let_def)
  next
    case False
    obtain r c1 where d: "deref_classic mx ctx entry obj (pdfi_unread_tell ctx) = (r, c1)"
      by (cases "deref_classic mx ctx entry obj (pdfi_unread_tell ctx)") auto
    with settings_deref_classic [of mx ctx entry obj "pdfi_unread_tell ctx"]
    have "settings c1 = settings ctx" by simp
    with d None False show ?thesis by (cases r) (simp_all add: deref_resolve_def Let_def)
  qed
qed

lemma settings_deref_resolve':
  "deref_resolve mx ctx entry obj gen = (r, c1) \<Longrightarrow> settings c1 = settings ctx"
  using settings_deref_resolve [of mx ctx entry obj gen] by simp

end
